theory Spec2Isabelle
  imports Main
begin

section \<open>Strings, bytes and numbers of the platform\<close>

text \<open>
  The query builder (\<^verbatim>\<open>QueryBuilder\<close>, \<^verbatim>\<open>src/unnamed/part_006\<close>) turns a
  \<^verbatim>\<open>DynamicQuery\<close> into a URL query string and back. It rests on four services of the
  JavaScript platform: \<^verbatim>\<open>URLSearchParams\<close> (the \<^verbatim>\<open>application/x-www-form-urlencoded\<close>
  serializer and parser of the URL standard), \<^verbatim>\<open>decodeURIComponent\<close>, \<^verbatim>\<open>parseInt\<close> and
  \<^verbatim>\<open>String.prototype.split\<close>. They are modelled here as the standards define them.

  A text is modelled by the list of its UTF-8 bytes (\<^typ>\<open>string\<close>), the form in which
  the URL standard percent-encodes it. A number is \<^verbatim>\<open>NaN\<close> or an integer. The model
  of numbers is exact for the safe integers, of magnitude below \<open>2^53\<close>
  (\<open>safe_number\<close> below): there JavaScript prints an integer in plain decimal and reads
  a run of digits exactly. Beyond them it is not the platform: JavaScript rounds the value
  of a digit run to a double from \<open>2^53\<close> on and prints exponent notation from
  \<open>10^21\<close> on, and fractions and infinities are not in the type. A statement that
  depends on how a number is printed and read back is stated for safe numbers only.
\<close>

definition code :: "char \<Rightarrow> nat" where
  "code c = of_char c"

definition is_digit :: "char \<Rightarrow> bool" where
  "is_digit c = (48 \<le> code c \<and> code c \<le> 57)"

definition hex_value :: "char \<Rightarrow> nat option" where
  "hex_value c =
     (if 48 \<le> code c \<and> code c \<le> 57 then Some (code c - 48)
      else if 65 \<le> code c \<and> code c \<le> 70 then Some (code c - 55)
      else if 97 \<le> code c \<and> code c \<le> 102 then Some (code c - 87)
      else None)"

definition hex_digit :: "nat \<Rightarrow> char" where
  "hex_digit n = (if n < 10 then char_of (48 + n) else char_of (55 + n))"

subsection \<open>Decimal numerals\<close>

text \<open>\<^verbatim>\<open>`${idx}`\<close> and \<^verbatim>\<open>Number.prototype.toString\<close> on a non-negative integer.\<close>

fun decimal :: "nat \<Rightarrow> string" where
  "decimal n = (if n < 10 then [char_of (48 + n)]
                else decimal (n div 10) @ [char_of (48 + n mod 10)])"

declare decimal.simps [simp del]

text \<open>The value of a run of decimal digits, most significant first.\<close>

definition digits_value :: "string \<Rightarrow> nat" where
  "digits_value ds = foldl (\<lambda>n c. 10 * n + (code c - 48)) 0 ds"

datatype number = NaN | Num int

text \<open>
  \<^verbatim>\<open>Number.prototype.toString\<close>, as it is for \<^verbatim>\<open>NaN\<close> and for the safe integers: plain
  decimal, with a minus sign for a negative number.
\<close>

definition number_toString :: "number \<Rightarrow> string" where
  "number_toString x =
     (case x of
        NaN \<Rightarrow> ''NaN''
      | Num i \<Rightarrow> (if i < 0 then CHR ''-'' # decimal (nat (- i)) else decimal (nat i)))"

text \<open>
  \<^verbatim>\<open>parseInt(s, 10)\<close>: leading white space is skipped (the \<^verbatim>\<open>StrWhiteSpaceChar\<close>
  of ECMAScript, in UTF-8), then an optional sign, then the longest run of decimal digits;
  no digit gives \<^verbatim>\<open>NaN\<close>, and whatever follows the digits is ignored. The result is
  the exact value of the digits, which is JavaScript's result below \<open>2^53\<close>.
\<close>

fun trim_start :: "string \<Rightarrow> string" where
  "trim_start [] = []"
| "trim_start (c # cs) =
     (if code c = 9 \<or> code c = 10 \<or> code c = 11 \<or> code c = 12 \<or> code c = 13 \<or> code c = 32
      then trim_start cs
      else if code c = 194 then
        (case cs of
           d # r \<Rightarrow> if code d = 160 then trim_start r else c # cs
         | [] \<Rightarrow> c # cs)
      else if code c = 225 \<or> code c = 226 \<or> code c = 227 \<or> code c = 239 then
        (case cs of
           d # e # r \<Rightarrow>
             if (code c = 225 \<and> code d = 154 \<and> code e = 128)
              \<or> (code c = 226 \<and> code d = 128 \<and> 128 \<le> code e \<and> code e \<le> 138)
              \<or> (code c = 226 \<and> code d = 128 \<and> (code e = 168 \<or> code e = 169 \<or> code e = 175))
              \<or> (code c = 226 \<and> code d = 129 \<and> code e = 159)
              \<or> (code c = 227 \<and> code d = 128 \<and> code e = 128)
              \<or> (code c = 239 \<and> code d = 187 \<and> code e = 191)
             then trim_start r else c # cs
         | _ \<Rightarrow> c # cs)
      else c # cs)"

definition safe_number :: "number option \<Rightarrow> bool" where
  "safe_number field =
     (case field of
        None \<Rightarrow> True
      | Some NaN \<Rightarrow> True
      | Some (Num i) \<Rightarrow> - 9007199254740992 < i \<and> i < 9007199254740992)"

definition parseInt :: "string \<Rightarrow> number" where
  "parseInt s =
     (let t = trim_start s;
          neg = (t \<noteq> [] \<and> hd t = CHR ''-'');
          u = (if t \<noteq> [] \<and> (hd t = CHR ''-'' \<or> hd t = CHR ''+'') then tl t else t);
          ds = takeWhile is_digit u
      in if ds = [] then NaN
         else Num (if neg then - int (digits_value ds) else int (digits_value ds)))"

subsection \<open>Percent-encoding of the URL standard\<close>

text \<open>
  The \<^verbatim>\<open>application/x-www-form-urlencoded\<close> byte serializer: a space becomes \<open>+\<close>,
  ASCII letters and digits and \<open>* - . _\<close> are kept, every other byte becomes \<open>%XX\<close>
  with upper-case hexadecimal digits.
\<close>

definition urlencoded_safe :: "char \<Rightarrow> bool" where
  "urlencoded_safe c =
     ((48 \<le> code c \<and> code c \<le> 57) \<or> (65 \<le> code c \<and> code c \<le> 90)
      \<or> (97 \<le> code c \<and> code c \<le> 122)
      \<or> c = CHR ''*'' \<or> c = CHR ''-'' \<or> c = CHR ''.'' \<or> c = CHR ''_'')"

definition percent_encode_byte :: "char \<Rightarrow> string" where
  "percent_encode_byte c = [CHR ''%'', hex_digit (code c div 16), hex_digit (code c mod 16)]"

fun urlencoded_byte_serialize :: "string \<Rightarrow> string" where
  "urlencoded_byte_serialize [] = []"
| "urlencoded_byte_serialize (c # cs) =
     (if c = CHR '' '' then CHR ''+'' # urlencoded_byte_serialize cs
      else if urlencoded_safe c then c # urlencoded_byte_serialize cs
      else percent_encode_byte c @ urlencoded_byte_serialize cs)"

text \<open>
  Percent-decoding of the URL standard never fails: a \<open>%\<close> that is not followed by two
  hexadecimal digits is kept as it is.
\<close>

fun percent_decode :: "string \<Rightarrow> string" where
  "percent_decode [] = []"
| "percent_decode (c # cs) =
     (if c = CHR ''%'' then
        (case cs of
           h # l # rest \<Rightarrow>
             (case (hex_value h, hex_value l) of
                (Some a, Some b) \<Rightarrow> char_of (16 * a + b) # percent_decode rest
              | _ \<Rightarrow> c # percent_decode cs)
         | _ \<Rightarrow> c # percent_decode cs)
      else c # percent_decode cs)"

subsection \<open>UTF-8\<close>

text \<open>
  The URL standard's parser ends with "UTF-8 decode without BOM", which replaces every
  ill-formed byte sequence by U+FFFD. On the byte model this is a function from bytes to
  bytes that keeps well-formed sequences and writes \<open>EF BF BD\<close> for each error. The
  decoder's state is the number of continuation bytes still needed, the range allowed for
  the next one and the bytes of the sequence read so far.
\<close>

datatype utf8_state = Idle | Pending nat nat nat string

definition replacement :: string where
  "replacement = [char_of (239::nat), char_of (191::nat), char_of (189::nat)]"

definition utf8_lead :: "nat \<Rightarrow> (nat \<times> nat \<times> nat) option" where
  "utf8_lead b =
     (if 194 \<le> b \<and> b \<le> 223 then Some (1, 128, 191)
      else if b = 224 then Some (2, 160, 191)
      else if b = 237 then Some (2, 128, 159)
      else if 225 \<le> b \<and> b \<le> 239 then Some (2, 128, 191)
      else if b = 240 then Some (3, 144, 191)
      else if b = 244 then Some (3, 128, 143)
      else if 241 \<le> b \<and> b \<le> 243 then Some (3, 128, 191)
      else None)"

fun utf8_decode_from :: "utf8_state \<Rightarrow> string \<Rightarrow> string" where
  "utf8_decode_from st [] = (case st of Idle \<Rightarrow> [] | Pending n lo hi seen \<Rightarrow> replacement)"
| "utf8_decode_from st (c # cs) =
     (case st of
        Idle \<Rightarrow>
          (if code c < 128 then c # utf8_decode_from Idle cs
           else case utf8_lead (code c) of
                  None \<Rightarrow> replacement @ utf8_decode_from Idle cs
                | Some (n, lo, hi) \<Rightarrow> utf8_decode_from (Pending n lo hi [c]) cs)
      | Pending n lo hi seen \<Rightarrow>
          (if lo \<le> code c \<and> code c \<le> hi then
             (if n = 1 then seen @ c # utf8_decode_from Idle cs
              else utf8_decode_from (Pending (n - 1) 128 191 (seen @ [c])) cs)
           else if code c < 128 then replacement @ c # utf8_decode_from Idle cs
           else case utf8_lead (code c) of
                  None \<Rightarrow> replacement @ replacement @ utf8_decode_from Idle cs
                | Some (n', lo', hi') \<Rightarrow>
                    replacement @ utf8_decode_from (Pending n' lo' hi' [c]) cs))"

definition utf8_decode :: "string \<Rightarrow> string" where
  "utf8_decode s = utf8_decode_from Idle s"

text \<open>A byte list is a text when it is well-formed UTF-8: decoding leaves it as it is.\<close>

definition well_formed :: "string \<Rightarrow> bool" where
  "well_formed s = (utf8_decode s = s)"

subsection \<open>URLSearchParams\<close>

text \<open>
  A \<^verbatim>\<open>URLSearchParams\<close> object is its list of name-value pairs, in order.
  \<^verbatim>\<open>append\<close> adds a pair at the end, \<^verbatim>\<open>has\<close> and \<^verbatim>\<open>get\<close> look for the first pair
  with a name, \<^verbatim>\<open>forEach\<close> visits the pairs in order.
\<close>

type_synonym params = "(string \<times> string) list"

definition append :: "string \<Rightarrow> string \<Rightarrow> params \<Rightarrow> params" where
  "append name v ps = ps @ [(name, v)]"

definition has :: "params \<Rightarrow> string \<Rightarrow> bool" where
  "has ps name = (name \<in> set (map fst ps))"

definition get :: "params \<Rightarrow> string \<Rightarrow> string option" where
  "get ps name = map_of ps name"

text \<open>\<^verbatim>\<open>toString\<close>: the pairs, each \<open>name=value\<close> byte-serialized, joined by \<open>&\<close>.\<close>

fun join_amp :: "string list \<Rightarrow> string" where
  "join_amp [] = []"
| "join_amp [x] = x"
| "join_amp (x # y # ys) = x @ CHR ''&'' # join_amp (y # ys)"

definition serialize_pair :: "string \<times> string \<Rightarrow> string" where
  "serialize_pair p =
     urlencoded_byte_serialize (fst p) @ CHR ''='' # urlencoded_byte_serialize (snd p)"

definition params_toString :: "params \<Rightarrow> string" where
  "params_toString ps = join_amp (map serialize_pair ps)"

text \<open>
  \<^verbatim>\<open>new URLSearchParams(string)\<close>: a leading \<open>?\<close> is dropped, the rest is split at
  every \<open>&\<close>, empty pieces are skipped, each piece is split at its first \<open>=\<close> (a piece
  with none has the empty value), \<open>+\<close> becomes a space, and name and value are
  percent-decoded and UTF-8 decoded.
\<close>

fun split_on :: "char \<Rightarrow> string \<Rightarrow> string \<Rightarrow> string list" where
  "split_on sep cur [] = [cur]"
| "split_on sep cur (c # cs) =
     (if c = sep then cur # split_on sep [] cs else split_on sep (cur @ [c]) cs)"

definition plus_to_space :: "string \<Rightarrow> string" where
  "plus_to_space s = map (\<lambda>c. if c = CHR ''+'' then CHR '' '' else c) s"

definition parse_component :: "string \<Rightarrow> string" where
  "parse_component s = utf8_decode (percent_decode (plus_to_space s))"

definition parse_pair :: "string \<Rightarrow> string \<times> string" where
  "parse_pair piece =
     (parse_component (takeWhile (\<lambda>c. c \<noteq> CHR ''='') piece),
      parse_component (drop 1 (dropWhile (\<lambda>c. c \<noteq> CHR ''='') piece)))"

definition urlencoded_parse :: "string \<Rightarrow> params" where
  "urlencoded_parse input = map parse_pair (filter (\<lambda>piece. piece \<noteq> []) (split_on CHR ''&'' [] input))"

definition new_URLSearchParams :: "string \<Rightarrow> params" where
  "new_URLSearchParams init =
     urlencoded_parse (case init of c # cs \<Rightarrow> if c = CHR ''?'' then cs else init | [] \<Rightarrow> init)"

subsection \<open>decodeURIComponent\<close>

text \<open>
  \<^verbatim>\<open>decodeURIComponent\<close> throws \<^verbatim>\<open>URIError\<close> where the URL standard's decoder is
  lenient: at a \<open>%\<close> that is not followed by two hexadecimal digits, and at escapes that
  do not spell one well-formed UTF-8 sequence. A first octet below \<open>0x80\<close> stands for
  itself; otherwise its leading one bits give the length of the sequence, whose
  continuation octets must all be escapes too.
\<close>

datatype error = URIError

fun hex_octet :: "string \<Rightarrow> (nat \<times> string) option" where
  "hex_octet (p # h # l # rest) =
     (if p = CHR ''%'' then
        (case (hex_value h, hex_value l) of
           (Some a, Some b) \<Rightarrow> Some (16 * a + b, rest)
         | _ \<Rightarrow> None)
      else None)"
| "hex_octet _ = None"

fun read_continuations :: "nat \<Rightarrow> string \<Rightarrow> (nat list \<times> string) option" where
  "read_continuations 0 s = Some ([], s)"
| "read_continuations (Suc n) s =
     (case hex_octet s of
        None \<Rightarrow> None
      | Some (b, rest) \<Rightarrow>
          (case read_continuations n rest of
             None \<Rightarrow> None
           | Some (bs, r) \<Rightarrow> Some (b # bs, r)))"

definition sequence_length :: "nat \<Rightarrow> nat option" where
  "sequence_length b =
     (if 192 \<le> b \<and> b < 224 then Some 2
      else if 224 \<le> b \<and> b < 240 then Some 3
      else if 240 \<le> b \<and> b < 248 then Some 4
      else None)"

definition continuation :: "nat \<Rightarrow> bool" where
  "continuation b = (128 \<le> b \<and> b \<le> 191)"

fun valid_utf8 :: "nat list \<Rightarrow> bool" where
  "valid_utf8 [a, b] = (194 \<le> a \<and> a \<le> 223 \<and> continuation b)"
| "valid_utf8 [a, b, c] =
     (continuation c \<and>
      ((a = 224 \<and> 160 \<le> b \<and> b \<le> 191)
       \<or> (a = 237 \<and> 128 \<le> b \<and> b \<le> 159)
       \<or> (225 \<le> a \<and> a \<le> 239 \<and> a \<noteq> 237 \<and> continuation b)))"
| "valid_utf8 [a, b, c, d] =
     (continuation c \<and> continuation d \<and>
      ((a = 240 \<and> 144 \<le> b \<and> b \<le> 191)
       \<or> (a = 244 \<and> 128 \<le> b \<and> b \<le> 143)
       \<or> (241 \<le> a \<and> a \<le> 243 \<and> continuation b)))"
| "valid_utf8 _ = False"

lemma hex_octet_shorter: "hex_octet s = Some (b, rest) \<Longrightarrow> length rest < length s"
  by (induction s rule: hex_octet.induct) (auto split: if_splits option.splits)

lemma read_continuations_shorter:
  "read_continuations n s = Some (bs, r) \<Longrightarrow> length r \<le> length s"
proof (induction n arbitrary: s bs r)
  case 0
  then show ?case by simp
next
  case (Suc n)
  then show ?case
    by (fastforce split: option.splits prod.splits dest: hex_octet_shorter)
qed

function decodeURIComponent :: "string \<Rightarrow> error + string" where
  "decodeURIComponent [] = Inr []"
| "decodeURIComponent (c # cs) =
     (if c \<noteq> CHR ''%'' then
        (case decodeURIComponent cs of Inl e \<Rightarrow> Inl e | Inr r \<Rightarrow> Inr (c # r))
      else
        (case hex_octet (c # cs) of
           None \<Rightarrow> Inl URIError
         | Some (b, rest) \<Rightarrow>
             if b < 128 then
               (case decodeURIComponent rest of Inl e \<Rightarrow> Inl e | Inr r \<Rightarrow> Inr (char_of b # r))
             else
               (case sequence_length b of
                  None \<Rightarrow> Inl URIError
                | Some n \<Rightarrow>
                    (case read_continuations (n - 1) rest of
                       None \<Rightarrow> Inl URIError
                     | Some (bs, rest') \<Rightarrow>
                         if valid_utf8 (b # bs) then
                           (case decodeURIComponent rest' of
                              Inl e \<Rightarrow> Inl e
                            | Inr r \<Rightarrow> Inr (map char_of (b # bs) @ r))
                         else Inl URIError))))"
  by pat_completeness auto
termination
proof (relation "measure length")
  show "wf (measure length)" by simp
next
  fix c cs
  show "(cs, c # cs) \<in> measure length" by simp
next
  fix c cs x2 x y
  assume "hex_octet (c # cs) = Some x2" "(x, y) = x2"
  then have "length y < length (c # cs)" using hex_octet_shorter [of "c # cs" x y] by simp
  then show "(y, c # cs) \<in> measure length" by simp
next
  fix c :: char and cs :: string and x2 :: "nat \<times> string" and x :: nat and y :: string
    and x2a :: nat and x2b :: "nat list \<times> string" and xa :: "nat list" and ya :: string
  assume h: "hex_octet (c # cs) = Some x2" "(x, y) = x2"
    and r: "read_continuations (x2a - 1) y = Some x2b" "(xa, ya) = x2b"
  from h have "length y < length (c # cs)" using hex_octet_shorter [of "c # cs" x y] by simp
  moreover from r have "length ya \<le> length y"
    using read_continuations_shorter [of "x2a - 1" y xa ya] by simp
  ultimately show "(ya, c # cs) \<in> measure length" by simp
qed

subsection \<open>Splitting at the separator \<open>&&\<close>\<close>

text \<open>
  \<^verbatim>\<open>s.split("&&")\<close>: the pieces between the occurrences of \<open>&&\<close>, found from left to
  right without overlap. The empty string gives one empty piece.
\<close>

fun split_amp_amp :: "string \<Rightarrow> string \<Rightarrow> string list" where
  "split_amp_amp cur [] = [cur]"
| "split_amp_amp cur [c] = [cur @ [c]]"
| "split_amp_amp cur (c # d # r) =
     (if c = CHR ''&'' \<and> d = CHR ''&'' then cur # split_amp_amp [] r
      else split_amp_amp (cur @ [c]) (d # r))"

subsection \<open>Indexed parameter names\<close>

text \<open>
  \<^verbatim>\<open>name.match(/^key(\d+)$/)\<close> and its likes: the name is the prefix followed by one or
  more ASCII digits and nothing else; the match gives the digits, and
  \<^verbatim>\<open>parseInt(digits, 10)\<close> their value (lemma \<open>match_indexed_parseInt\<close> below). The
  index is the exact value of the digits; JavaScript rounds a value from \<open>2^53\<close> on.
\<close>

definition match_indexed :: "string \<Rightarrow> string \<Rightarrow> nat option" where
  "match_indexed pre name =
     (if take (length pre) name = pre \<and> drop (length pre) name \<noteq> []
         \<and> list_all is_digit (drop (length pre) name)
      then Some (digits_value (drop (length pre) name))
      else None)"

definition indexed :: "string \<Rightarrow> nat \<Rightarrow> string" where
  "indexed pre idx = pre @ decimal idx"

subsection \<open>Arrays and Maps\<close>

text \<open>
  A JavaScript array may have holes: \<^verbatim>\<open>a[idx] = v\<close> beyond the end extends the array
  and leaves the positions in between empty, and \<^verbatim>\<open>forEach\<close> skips them. An index from
  \<open>2^32 - 1\<close> on is no array index: the assignment sets a property, and leaves the
  elements and the length as they were.
\<close>

type_synonym 'a array = "'a option list"

definition array_set :: "'a array \<Rightarrow> nat \<Rightarrow> 'a \<Rightarrow> 'a array" where
  "array_set a idx v =
     (if idx < 4294967295 then
        (if idx < length a then a[idx := Some v]
         else a @ replicate (idx - length a) None @ [Some v])
      else a)"

text \<open>
  A \<^verbatim>\<open>Map\<close> keeps its keys in insertion order: \<^verbatim>\<open>set\<close> on a key the map has replaces
  the value where it stands, on a new key it adds the entry at the end.
\<close>

definition Map_has :: "('k \<times> 'v) list \<Rightarrow> 'k \<Rightarrow> bool" where
  "Map_has m k = (k \<in> set (map fst m))"

definition Map_get :: "('k \<times> 'v) list \<Rightarrow> 'k \<Rightarrow> 'v option" where
  "Map_get m k = map_of m k"

fun Map_set :: "('k \<times> 'v) list \<Rightarrow> 'k \<Rightarrow> 'v \<Rightarrow> ('k \<times> 'v) list" where
  "Map_set [] k v = [(k, v)]"
| "Map_set (e # m) k v = (if fst e = k then (k, v) # m else e # Map_set m k v)"

section \<open>The query model\<close>

text \<open>
  \<^verbatim>\<open>src/lib/types/field.types.ts\<close>. \<^verbatim>\<open>CriteriaOperation\<close> is a string enum: each
  member is the string of its name. A \<^verbatim>\<open>Criteria\<close> holds its operation as that string,
  since \<^verbatim>\<open>fromQueryString\<close> stores whatever string the URL carries
  (\<^verbatim>\<open>value as CriteriaOperation\<close>).
\<close>

datatype CriteriaOperation =
    CONTAIN | DOES_NOT_CONTAIN | END_WITH | START_WITH | SPECIFIED | EQUAL | NOT_EQUAL
  | GREATER_THAN | GREATER_THAN_OR_EQUAL | LESS_THAN | LESS_THAN_OR_EQUAL

fun operation_string :: "CriteriaOperation \<Rightarrow> string" where
  "operation_string CONTAIN = ''CONTAIN''"
| "operation_string DOES_NOT_CONTAIN = ''DOES_NOT_CONTAIN''"
| "operation_string END_WITH = ''END_WITH''"
| "operation_string START_WITH = ''START_WITH''"
| "operation_string SPECIFIED = ''SPECIFIED''"
| "operation_string EQUAL = ''EQUAL''"
| "operation_string NOT_EQUAL = ''NOT_EQUAL''"
| "operation_string GREATER_THAN = ''GREATER_THAN''"
| "operation_string GREATER_THAN_OR_EQUAL = ''GREATER_THAN_OR_EQUAL''"
| "operation_string LESS_THAN = ''LESS_THAN''"
| "operation_string LESS_THAN_OR_EQUAL = ''LESS_THAN_OR_EQUAL''"

record Criteria =
  key :: string
  operation :: string
  "values" :: "string list"

record DynamicQuery =
  criteria :: "Criteria list"
  select :: "string array option"
  selectAs :: "string array option"
  orderBy :: "string array option"
  orderByDirection :: "string array option"
  page :: "number option"
  pageSize :: "number option"

section \<open>QueryBuilder\<close>

text \<open>
  A \<^verbatim>\<open>QueryBuilder\<close> owns one \<^verbatim>\<open>DynamicQuery\<close>; the builder's state is that query, and
  a method that changes it returns the new one.
\<close>

definition new_QueryBuilder :: "DynamicQuery option \<Rightarrow> DynamicQuery" where
  "new_QueryBuilder initialQuery =
     (case initialQuery of
        Some q \<Rightarrow> q
      | None \<Rightarrow>
          \<lparr>criteria = [], select = None, selectAs = None, orderBy = None,
           orderByDirection = None, page = Some (Num 0), pageSize = Some (Num 20)\<rparr>)"

definition clear :: "DynamicQuery \<Rightarrow> DynamicQuery" where
  "clear q =
     \<lparr>criteria = [], select = None, selectAs = None, orderBy = None,
      orderByDirection = None, page = Some (Num 0), pageSize = Some (Num 20)\<rparr>"

definition addCriteria :: "string \<Rightarrow> CriteriaOperation \<Rightarrow> string list \<Rightarrow> DynamicQuery \<Rightarrow> DynamicQuery" where
  "addCriteria k op vs q =
     q\<lparr>criteria := criteria q @ [\<lparr>key = k, operation = operation_string op, values = vs\<rparr>]\<rparr>"

text \<open>
  \<^verbatim>\<open>removeCriteria\<close> keeps \<^verbatim>\<open>c\<close> when
  \<^verbatim>\<open>c.key !== key || (operation && c.operation !== operation)\<close>; an operation that is not
  given, or the empty string, is falsy.
\<close>

definition removeCriteria :: "string \<Rightarrow> CriteriaOperation option \<Rightarrow> DynamicQuery \<Rightarrow> DynamicQuery" where
  "removeCriteria k op q =
     q\<lparr>criteria :=
         filter (\<lambda>c. key c \<noteq> k \<or>
                     (case op of
                        None \<Rightarrow> False
                      | Some x \<Rightarrow> operation_string x \<noteq> [] \<and> operation c \<noteq> operation_string x))
           (criteria q)\<rparr>"

definition upsertCriteria :: "string \<Rightarrow> CriteriaOperation \<Rightarrow> string list \<Rightarrow> DynamicQuery \<Rightarrow> DynamicQuery" where
  "upsertCriteria k op vs q = addCriteria k op vs (removeCriteria k (Some op) q)"

subsection \<open>toQueryString\<close>

fun append_values :: "string \<Rightarrow> string list \<Rightarrow> params \<Rightarrow> params" where
  "append_values name [] ps = ps"
| "append_values name (v # vs) ps = append_values name vs (append name v ps)"

fun append_criteria :: "nat \<Rightarrow> Criteria list \<Rightarrow> params \<Rightarrow> params" where
  "append_criteria idx [] ps = ps"
| "append_criteria idx (c # cs) ps =
     append_criteria (Suc idx) cs
       (append_values (indexed ''values'' idx) (values c)
          (append (indexed ''operation'' idx) (operation c)
             (append (indexed ''key'' idx) (key c) ps)))"

fun append_array :: "string \<Rightarrow> nat \<Rightarrow> string array \<Rightarrow> params \<Rightarrow> params" where
  "append_array pre idx [] ps = ps"
| "append_array pre idx (x # xs) ps =
     append_array pre (Suc idx) xs
       (case x of None \<Rightarrow> ps | Some v \<Rightarrow> append (indexed pre idx) v ps)"

definition append_optional :: "string \<Rightarrow> string array option \<Rightarrow> params \<Rightarrow> params" where
  "append_optional pre field ps =
     (case field of
        None \<Rightarrow> ps
      | Some a \<Rightarrow> if length a > 0 then append_array pre 0 a ps else ps)"

definition append_number :: "string \<Rightarrow> number option \<Rightarrow> params \<Rightarrow> params" where
  "append_number name field ps =
     (case field of None \<Rightarrow> ps | Some n \<Rightarrow> append name (number_toString n) ps)"

definition query_params :: "DynamicQuery \<Rightarrow> params" where
  "query_params q =
     append_number ''pageSize'' (pageSize q)
       (append_number ''page'' (page q)
          (append_optional ''orderByDirection'' (orderByDirection q)
             (append_optional ''orderBy'' (orderBy q)
                (append_optional ''selectAs'' (selectAs q)
                   (append_optional ''select'' (select q)
                      (append_criteria 0 (criteria q) []))))))"

definition toQueryString :: "DynamicQuery \<Rightarrow> string" where
  "toQueryString q = params_toString (query_params q)"

subsection \<open>fromQueryString\<close>

record Partial_Criteria =
  p_key :: "string option"
  p_operation :: "string option"
  p_values :: "string list option"

definition empty_partial :: Partial_Criteria where
  "empty_partial = \<lparr>p_key = None, p_operation = None, p_values = None\<rparr>"

type_synonym criteria_map = "(nat \<times> Partial_Criteria) list"

text \<open>\<^verbatim>\<open>if (!criteriaMap.has(idx)) criteriaMap.set(idx, init)\<close>\<close>

definition ensure :: "nat \<Rightarrow> Partial_Criteria \<Rightarrow> criteria_map \<Rightarrow> criteria_map" where
  "ensure idx init m = (if \<not> Map_has m idx then Map_set m idx init else m)"

text \<open>\<^verbatim>\<open>criteriaMap.get(idx)!\<close> is the object in the map; a write to its field changes the entry.\<close>

definition modify :: "nat \<Rightarrow> (Partial_Criteria \<Rightarrow> Partial_Criteria) \<Rightarrow> criteria_map \<Rightarrow> criteria_map" where
  "modify idx f m = (case Map_get m idx of None \<Rightarrow> m | Some p \<Rightarrow> Map_set m idx (f p))"

definition push_values :: "string list \<Rightarrow> Partial_Criteria \<Rightarrow> Partial_Criteria" where
  "push_values vs p =
     (case p_values p of
        None \<Rightarrow> p\<lparr>p_values := Some vs\<rparr>
      | Some old \<Rightarrow> p\<lparr>p_values := Some (old @ vs)\<rparr>)"

definition criteria_step :: "string \<Rightarrow> string \<Rightarrow> criteria_map \<Rightarrow> error + criteria_map" where
  "criteria_step name v m =
     (case match_indexed ''key'' name of
        Some idx \<Rightarrow> Inr (modify idx (\<lambda>p. p\<lparr>p_key := Some v\<rparr>) (ensure idx empty_partial m))
      | None \<Rightarrow>
     (case match_indexed ''operation'' name of
        Some idx \<Rightarrow> Inr (modify idx (\<lambda>p. p\<lparr>p_operation := Some v\<rparr>) (ensure idx empty_partial m))
      | None \<Rightarrow>
     (case match_indexed ''values'' name of
        Some idx \<Rightarrow>
          (case decodeURIComponent v of
             Inl e \<Rightarrow> Inl e
           | Inr d \<Rightarrow>
               Inr (modify idx (push_values (split_amp_amp [] d))
                      (ensure idx (empty_partial\<lparr>p_values := Some []\<rparr>) m)))
      | None \<Rightarrow> Inr m)))"

definition array_step :: "string \<Rightarrow> string \<Rightarrow> string \<Rightarrow> string array \<Rightarrow> string array" where
  "array_step pre name v a =
     (case match_indexed pre name of None \<Rightarrow> a | Some idx \<Rightarrow> array_set a idx v)"

record decode_state =
  criteriaMap :: criteria_map
  d_select :: "string array"
  d_selectAs :: "string array"
  d_orderBy :: "string array"
  d_orderByDirection :: "string array"

definition param_step :: "string \<times> string \<Rightarrow> decode_state \<Rightarrow> error + decode_state" where
  "param_step p st =
     (case criteria_step (fst p) (snd p) (criteriaMap st) of
        Inl e \<Rightarrow> Inl e
      | Inr m \<Rightarrow>
          Inr \<lparr>criteriaMap = m,
               d_select = array_step ''select'' (fst p) (snd p) (d_select st),
               d_selectAs = array_step ''selectAs'' (fst p) (snd p) (d_selectAs st),
               d_orderBy = array_step ''orderBy'' (fst p) (snd p) (d_orderBy st),
               d_orderByDirection =
                 array_step ''orderByDirection'' (fst p) (snd p) (d_orderByDirection st)\<rparr>)"

fun params_forEach :: "params \<Rightarrow> decode_state \<Rightarrow> error + decode_state" where
  "params_forEach [] st = Inr st"
| "params_forEach (p # ps) st =
     (case param_step p st of Inl e \<Rightarrow> Inl e | Inr st' \<Rightarrow> params_forEach ps st')"

text \<open>
  \<^verbatim>\<open>criteriaMap.forEach\<close>: an entry becomes a criterion when its key and its operation
  are truthy (given and not empty) and its values are given.
\<close>

fun criteria_push :: "criteria_map \<Rightarrow> Criteria list \<Rightarrow> Criteria list" where
  "criteria_push [] cs = cs"
| "criteria_push (e # m) cs =
     criteria_push m
       (case (p_key (snd e), p_operation (snd e), p_values (snd e)) of
          (Some k, Some op, Some vs) \<Rightarrow>
            if k \<noteq> [] \<and> op \<noteq> [] then cs @ [\<lparr>key = k, operation = op, values = vs\<rparr>] else cs
        | _ \<Rightarrow> cs)"

definition array_or_undefined :: "string array \<Rightarrow> string array option" where
  "array_or_undefined a = (if length a > 0 then Some a else None)"

definition number_param :: "params \<Rightarrow> string \<Rightarrow> number option" where
  "number_param ps name =
     (if has ps name then (case get ps name of None \<Rightarrow> None | Some v \<Rightarrow> Some (parseInt v))
      else None)"

definition initial_state :: decode_state where
  "initial_state =
     \<lparr>criteriaMap = [], d_select = [], d_selectAs = [], d_orderBy = [], d_orderByDirection = []\<rparr>"

definition fromQueryString :: "string \<Rightarrow> error + DynamicQuery" where
  "fromQueryString queryString =
     (case params_forEach (new_URLSearchParams queryString) initial_state of
        Inl e \<Rightarrow> Inl e
      | Inr st \<Rightarrow>
          Inr \<lparr>criteria = criteria_push (criteriaMap st) [],
               select = array_or_undefined (d_select st),
               selectAs = array_or_undefined (d_selectAs st),
               orderBy = array_or_undefined (d_orderBy st),
               orderByDirection = array_or_undefined (d_orderByDirection st),
               page = number_param (new_URLSearchParams queryString) ''page'',
               pageSize = number_param (new_URLSearchParams queryString) ''pageSize''\<rparr>)"

section \<open>Parameter names\<close>

lemma code_char_of: "n < 256 \<Longrightarrow> code (char_of n) = n"
  by (simp add: code_def)

lemma is_digit_char_of: "d < 10 \<Longrightarrow> is_digit (char_of (48 + d :: nat))"
  by (simp add: is_digit_def code_char_of)

lemma digit_value_char_of: "d < 10 \<Longrightarrow> code (char_of (48 + d)) - 48 = d"
  by (simp add: code_char_of)

lemma decimal_digits: "list_all is_digit (decimal n)"
proof (induction n rule: decimal.induct)
  case (1 n)
  show ?case
  proof (cases "n < 10")
    case True
    then show ?thesis by (subst decimal.simps) (simp add: is_digit_char_of)
  next
    case False
    then have "list_all is_digit (decimal (n div 10))" using 1 by simp
    moreover have "is_digit (char_of (48 + n mod 10))" by (rule is_digit_char_of) simp
    ultimately show ?thesis using False by (subst decimal.simps) simp
  qed
qed

lemma decimal_not_empty: "decimal n \<noteq> []"
  by (subst decimal.simps) simp

lemma digits_value_snoc: "digits_value (ds @ [c]) = 10 * digits_value ds + (code c - 48)"
  by (simp add: digits_value_def)

lemma digits_value_decimal: "digits_value (decimal n) = n"
proof (induction n rule: decimal.induct)
  case (1 n)
  show ?case
  proof (cases "n < 10")
    case True
    then show ?thesis
      by (subst decimal.simps) (simp add: digits_value_def digit_value_char_of)
  next
    case False
    then have "digits_value (decimal (n div 10)) = n div 10" using 1 by simp
    moreover have "code (char_of (48 + n mod 10)) - 48 = n mod 10"
      by (rule digit_value_char_of) simp
    ultimately show ?thesis using False
      by (subst decimal.simps) (simp add: digits_value_snoc)
  qed
qed

lemma decimal_inj: "decimal i = decimal j \<Longrightarrow> i = j"
  by (metis digits_value_decimal)

text \<open>The parameter names of the wire format have no digit but in their index.\<close>

definition digit_free :: "string \<Rightarrow> bool" where
  "digit_free s = list_all (\<lambda>c. \<not> is_digit c) s"

lemma takeWhile_digit_free:
  "digit_free pre \<Longrightarrow> list_all is_digit ds \<Longrightarrow>
   takeWhile (\<lambda>c. \<not> is_digit c) (pre @ ds) = pre"
  apply (induction pre)
   apply (cases ds; simp add: digit_free_def)
  apply (simp add: digit_free_def)
  done

lemma dropWhile_digit_free:
  "digit_free pre \<Longrightarrow> list_all is_digit ds \<Longrightarrow>
   dropWhile (\<lambda>c. \<not> is_digit c) (pre @ ds) = ds"
  apply (induction pre)
   apply (cases ds; simp add: digit_free_def)
  apply (simp add: digit_free_def)
  done

lemma match_indexed_split:
  "match_indexed pre name = Some i \<Longrightarrow>
   \<exists>ds. name = pre @ ds \<and> ds \<noteq> [] \<and> list_all is_digit ds \<and> digits_value ds = i"
proof -
  assume m: "match_indexed pre name = Some i"
  then have t: "take (length pre) name = pre" and d: "drop (length pre) name \<noteq> []"
    and a: "list_all is_digit (drop (length pre) name)"
    and v: "digits_value (drop (length pre) name) = i"
    by (simp_all add: match_indexed_def split: if_splits)
  have "name = pre @ drop (length pre) name"
    using t append_take_drop_id [of "length pre" name] by simp
  with d a v show ?thesis by blast
qed

lemma match_indexed_append:
  "ds \<noteq> [] \<Longrightarrow> list_all is_digit ds \<Longrightarrow> match_indexed pre (pre @ ds) = Some (digits_value ds)"
  by (simp add: match_indexed_def)

lemma match_indexed_same: "match_indexed pre (indexed pre i) = Some i"
  by (simp add: indexed_def match_indexed_append decimal_not_empty decimal_digits digits_value_decimal)

lemma match_indexed_prefix_unique:
  assumes "digit_free pre" "digit_free pre'"
    and "match_indexed pre name = Some i" "match_indexed pre' name = Some j"
  shows "pre = pre'"
proof -
  obtain ds where a: "name = pre @ ds" "list_all is_digit ds"
    using match_indexed_split [OF assms(3)] by blast
  obtain ds' where b: "name = pre' @ ds'" "list_all is_digit ds'"
    using match_indexed_split [OF assms(4)] by blast
  have "takeWhile (\<lambda>c. \<not> is_digit c) name = pre"
    using a assms(1) takeWhile_digit_free by blast
  moreover have "takeWhile (\<lambda>c. \<not> is_digit c) name = pre'"
    using b assms(2) takeWhile_digit_free by blast
  ultimately show ?thesis by simp
qed

lemma match_indexed_other:
  "digit_free pre \<Longrightarrow> digit_free pre' \<Longrightarrow> pre \<noteq> pre' \<Longrightarrow> match_indexed pre (indexed pre' i) = None"
  using match_indexed_prefix_unique [of pre pre' "indexed pre' i" _ i] match_indexed_same [of pre' i]
  by (cases "match_indexed pre (indexed pre' i)") auto

lemma match_indexed_digit_free: "digit_free name \<Longrightarrow> match_indexed pre name = None"
proof (cases "match_indexed pre name")
  case None then show ?thesis by simp
next
  case (Some i)
  assume df: "digit_free name"
  obtain ds where a: "name = pre @ ds" "ds \<noteq> []" "list_all is_digit ds"
    using match_indexed_split [OF Some] by blast
  then obtain d ds' where "ds = d # ds'" by (cases ds) auto
  with a df show ?thesis by (simp add: digit_free_def)
qed

lemma indexed_inj:
  assumes "digit_free pre" "digit_free pre'" "indexed pre i = indexed pre' j"
  shows "pre = pre' \<and> i = j"
proof -
  have "match_indexed pre (indexed pre' j) = Some i"
    using match_indexed_same [of pre i] assms(3) by simp
  moreover have "match_indexed pre' (indexed pre' j) = Some j" by (rule match_indexed_same)
  ultimately show ?thesis
    using match_indexed_prefix_unique [OF assms(1,2)] by fastforce
qed

lemma df_names [simp]:
  "digit_free ''key''" "digit_free ''operation''" "digit_free ''values''"
  "digit_free ''select''" "digit_free ''selectAs''" "digit_free ''orderBy''"
  "digit_free ''orderByDirection''" "digit_free ''page''" "digit_free ''pageSize''"
  by (simp_all add: digit_free_def is_digit_def code_def)

section \<open>The order of emission\<close>

lemma char_of_bits:
  "char_of (n::nat) = Char (odd n) (odd (n div 2)) (odd (n div 4)) (odd (n div 8))
     (odd (n div 16)) (odd (n div 32)) (odd (n div 64)) (odd (n div 128))"
  by (simp add: char_of_def bit_iff_odd_drop_bit drop_bit_eq_div)

lemma decimal_0 [simp]: "decimal 0 = ''0''" by (simp add: decimal.simps char_of_bits)
lemma decimal_1 [simp]: "decimal (Suc 0) = ''1''" by (simp add: decimal.simps char_of_bits)

text \<open>
  What \<^verbatim>\<open>toQueryString\<close> is meant to emit, written as one list: a block of
  parameters for each criterion, then the entries of each optional array, then the two
  numbers.
\<close>

definition criterion_block :: "nat \<Rightarrow> Criteria \<Rightarrow> params" where
  "criterion_block i c =
     (indexed ''key'' i, key c) # (indexed ''operation'' i, operation c)
       # map (\<lambda>v. (indexed ''values'' i, v)) (values c)"

definition criteria_blocks :: "nat \<Rightarrow> Criteria list \<Rightarrow> params" where
  "criteria_blocks start cs = concat (map (\<lambda>(i, c). criterion_block i c) (enumerate start cs))"

definition array_entries :: "string \<Rightarrow> nat \<Rightarrow> string array \<Rightarrow> params" where
  "array_entries pre start a =
     concat (map (\<lambda>(i, x). case x of None \<Rightarrow> [] | Some v \<Rightarrow> [(indexed pre i, v)])
                 (enumerate start a))"

definition array_block :: "string \<Rightarrow> string array option \<Rightarrow> params" where
  "array_block pre field = (case field of None \<Rightarrow> [] | Some a \<Rightarrow> array_entries pre 0 a)"

definition number_block :: "string \<Rightarrow> number option \<Rightarrow> params" where
  "number_block name field = (case field of None \<Rightarrow> [] | Some n \<Rightarrow> [(name, number_toString n)])"

definition emission_order :: "DynamicQuery \<Rightarrow> params" where
  "emission_order q =
     criteria_blocks 0 (criteria q)
     @ array_block ''select'' (select q)
     @ array_block ''selectAs'' (selectAs q)
     @ array_block ''orderBy'' (orderBy q)
     @ array_block ''orderByDirection'' (orderByDirection q)
     @ number_block ''page'' (page q)
     @ number_block ''pageSize'' (pageSize q)"

lemma append_values_eq: "append_values name vs ps = ps @ map (\<lambda>v. (name, v)) vs"
  by (induction vs arbitrary: ps) (simp_all add: append_def)

lemma append_criteria_eq: "append_criteria idx cs ps = ps @ criteria_blocks idx cs"
  by (induction cs arbitrary: idx ps)
     (simp_all add: criteria_blocks_def criterion_block_def append_values_eq append_def)

lemma append_array_eq: "append_array pre idx a ps = ps @ array_entries pre idx a"
  by (induction a arbitrary: idx ps)
     (simp_all add: array_entries_def append_def split: option.splits)

lemma append_optional_eq: "append_optional pre field ps = ps @ array_block pre field"
  by (cases field) (auto simp: append_optional_def array_block_def append_array_eq array_entries_def)

lemma append_number_eq: "append_number name field ps = ps @ number_block name field"
  by (cases field) (simp_all add: append_number_def number_block_def append_def)

lemma query_params_eq: "query_params q = emission_order q"
  by (simp add: query_params_def emission_order_def append_criteria_eq append_optional_eq
      append_number_eq)

text \<open>The names of the parameters of the criterion with index \<open>i\<close>.\<close>

definition criterion_names :: "nat \<Rightarrow> string set" where
  "criterion_names i = {indexed ''key'' i, indexed ''operation'' i, indexed ''values'' i}"

lemma indexed_eq_iff:
  "digit_free pre \<Longrightarrow> digit_free pre' \<Longrightarrow> indexed pre i = indexed pre' j \<longleftrightarrow> pre = pre' \<and> i = j"
  using indexed_inj by blast

lemma indexed_not_digit_free: "digit_free name \<Longrightarrow> indexed pre i \<noteq> name"
  using match_indexed_digit_free [of name pre] match_indexed_same [of pre i] by auto

lemma criterion_names_iff:
  "digit_free pre \<Longrightarrow>
   indexed pre j \<in> criterion_names i \<longleftrightarrow> (pre = ''key'' \<or> pre = ''operation'' \<or> pre = ''values'') \<and> i = j"
  by (auto simp: criterion_names_def indexed_eq_iff)

lemma filter_criterion_block:
  "filter (\<lambda>p. fst p \<in> criterion_names i) (criterion_block j c) =
     (if i = j then criterion_block j c else [])"
  by (simp add: criterion_block_def criterion_names_iff filter_map comp_def)

lemma filter_criteria_blocks:
  "filter (\<lambda>p. fst p \<in> criterion_names i) (criteria_blocks start cs) =
     (if start \<le> i \<and> i < start + length cs then criterion_block i (cs ! (i - start)) else [])"
proof (induction cs arbitrary: start)
  case Nil
  then show ?case by (auto simp: criteria_blocks_def)
next
  case (Cons c cs)
  have step: "criteria_blocks start (c # cs) = criterion_block start c @ criteria_blocks (Suc start) cs"
    by (simp add: criteria_blocks_def)
  show ?case
    unfolding step filter_append filter_criterion_block Cons.IH
    by (auto simp: Suc_diff_le)
qed

lemma filter_array_entries:
  "digit_free pre \<Longrightarrow> pre \<noteq> ''key'' \<Longrightarrow> pre \<noteq> ''operation'' \<Longrightarrow> pre \<noteq> ''values'' \<Longrightarrow>
   filter (\<lambda>p. fst p \<in> criterion_names i) (array_entries pre start a) = []"
  by (induction a arbitrary: start)
     (auto simp: array_entries_def criterion_names_iff split: option.splits)

lemma filter_array_block:
  "digit_free pre \<Longrightarrow> pre \<noteq> ''key'' \<Longrightarrow> pre \<noteq> ''operation'' \<Longrightarrow> pre \<noteq> ''values'' \<Longrightarrow>
   filter (\<lambda>p. fst p \<in> criterion_names i) (array_block pre field) = []"
  by (cases field) (simp_all add: array_block_def filter_array_entries)

lemma filter_number_block:
  "digit_free name \<Longrightarrow> filter (\<lambda>p. fst p \<in> criterion_names i) (number_block name field) = []"
  using indexed_not_digit_free [of name]
  by (cases field) (auto simp: number_block_def criterion_names_def)

section \<open>Decoding, part by part\<close>

text \<open>
  The loop over the parameters works on five independent parts of its state; each part
  has a loop of its own, and \<^const>\<open>params_forEach\<close> is their product.
\<close>

fun criteria_forEach :: "params \<Rightarrow> criteria_map \<Rightarrow> error + criteria_map" where
  "criteria_forEach [] m = Inr m"
| "criteria_forEach (p # ps) m =
     (case criteria_step (fst p) (snd p) m of Inl e \<Rightarrow> Inl e | Inr m' \<Rightarrow> criteria_forEach ps m')"

fun array_forEach :: "string \<Rightarrow> params \<Rightarrow> string array \<Rightarrow> string array" where
  "array_forEach pre [] a = a"
| "array_forEach pre (p # ps) a = array_forEach pre ps (array_step pre (fst p) (snd p) a)"

text \<open>
  What the decoder collects for an index, read off the parameter list: the indices in the
  order of their first parameter, the last \<open>key{i}\<close> and \<open>operation{i}\<close>, and the
  pieces of all \<open>values{i}\<close> in order.
\<close>

fun first_occurrences :: "nat list \<Rightarrow> nat list" where
  "first_occurrences [] = []"
| "first_occurrences (x # xs) = x # filter (\<lambda>y. y \<noteq> x) (first_occurrences xs)"

definition criteria_index :: "string \<Rightarrow> nat option" where
  "criteria_index name =
     (case match_indexed ''key'' name of
        Some i \<Rightarrow> Some i
      | None \<Rightarrow>
          (case match_indexed ''operation'' name of
             Some i \<Rightarrow> Some i
           | None \<Rightarrow> match_indexed ''values'' name))"

definition encounter_order :: "params \<Rightarrow> nat list" where
  "encounter_order ps = first_occurrences (List.map_filter (\<lambda>p. criteria_index (fst p)) ps)"

definition fragments :: "string \<Rightarrow> params \<Rightarrow> nat \<Rightarrow> string list" where
  "fragments pre ps i = map snd (filter (\<lambda>p. match_indexed pre (fst p) = Some i) ps)"

definition last_fragment :: "string \<Rightarrow> params \<Rightarrow> nat \<Rightarrow> string option" where
  "last_fragment pre ps i =
     (if fragments pre ps i = [] then None else Some (last (fragments pre ps i)))"

definition pieces :: "string \<Rightarrow> string list" where
  "pieces v = (case decodeURIComponent v of Inl e \<Rightarrow> [] | Inr d \<Rightarrow> split_amp_amp [] d)"

definition collected_values :: "params \<Rightarrow> nat \<Rightarrow> string list option" where
  "collected_values ps i =
     (if fragments ''values'' ps i = [] then None
      else Some (concat (map pieces (fragments ''values'' ps i))))"

definition collected :: "params \<Rightarrow> nat \<Rightarrow> Partial_Criteria" where
  "collected ps i =
     \<lparr>p_key = last_fragment ''key'' ps i,
      p_operation = last_fragment ''operation'' ps i,
      p_values = collected_values ps i\<rparr>"

definition materialized :: "Partial_Criteria \<Rightarrow> Criteria option" where
  "materialized p =
     (case (p_key p, p_operation p, p_values p) of
        (Some k, Some op, Some vs) \<Rightarrow>
          if k \<noteq> [] \<and> op \<noteq> [] then Some \<lparr>key = k, operation = op, values = vs\<rparr> else None
      | _ \<Rightarrow> None)"

lemma params_forEach_eq:
  "params_forEach ps st =
     (case criteria_forEach ps (criteriaMap st) of
        Inl e \<Rightarrow> Inl e
      | Inr m \<Rightarrow>
          Inr \<lparr>criteriaMap = m,
               d_select = array_forEach ''select'' ps (d_select st),
               d_selectAs = array_forEach ''selectAs'' ps (d_selectAs st),
               d_orderBy = array_forEach ''orderBy'' ps (d_orderBy st),
               d_orderByDirection = array_forEach ''orderByDirection'' ps (d_orderByDirection st)\<rparr>)"
proof (induction ps arbitrary: st)
  case Nil
  then show ?case by simp
next
  case (Cons p ps)
  show ?case
  proof (cases "criteria_step (fst p) (snd p) (criteriaMap st)")
    case (Inl e)
    then show ?thesis by (simp add: param_step_def)
  next
    case (Inr m)
    then show ?thesis by (simp add: param_step_def Cons.IH split: sum.splits)
  qed
qed

lemma criteria_forEach_snoc:
  "criteria_forEach (ps @ [p]) m =
     (case criteria_forEach ps m of Inl e \<Rightarrow> Inl e | Inr m' \<Rightarrow> criteria_step (fst p) (snd p) m')"
  by (induction ps arbitrary: m) (auto split: sum.splits)

lemma criteria_push_eq: "criteria_push m cs = cs @ List.map_filter materialized (map snd m)"
  by (induction m arbitrary: cs)
     (auto simp: List.map_filter_simps materialized_def split: option.splits)

lemma first_occurrences_set [simp]: "set (first_occurrences xs) = set xs"
  by (induction xs) auto

lemma first_occurrences_distinct [simp]: "distinct (first_occurrences xs)"
  by (induction xs) auto

lemma first_occurrences_snoc:
  "first_occurrences (xs @ [x]) =
     (if x \<in> set xs then first_occurrences xs else first_occurrences xs @ [x])"
  by (induction xs) auto

lemma encounter_order_snoc:
  "encounter_order (ps @ [p]) =
     (case criteria_index (fst p) of
        None \<Rightarrow> encounter_order ps
      | Some i \<Rightarrow> if i \<in> set (encounter_order ps) then encounter_order ps
                  else encounter_order ps @ [i])"
  by (cases "criteria_index (fst p)")
     (simp_all add: encounter_order_def List.map_filter_def first_occurrences_snoc)

subsection \<open>The criteria map after the loop\<close>

lemma Map_has_map: "Map_has (map (\<lambda>i. (i, f i)) xs) k = (k \<in> set xs)"
  by (auto simp: Map_has_def image_iff)

lemma Map_get_map: "Map_get (map (\<lambda>i. (i, f i)) xs) k = (if k \<in> set xs then Some (f k) else None)"
  by (induction xs) (auto simp: Map_get_def)

lemma Map_set_new:
  "k \<notin> set xs \<Longrightarrow> Map_set (map (\<lambda>i. (i, f i)) xs) k v = map (\<lambda>i. (i, f i)) xs @ [(k, v)]"
  by (induction xs) auto

lemma Map_set_old:
  "k \<in> set xs \<Longrightarrow> distinct xs \<Longrightarrow>
   Map_set (map (\<lambda>i. (i, f i)) xs) k v = map (\<lambda>i. (i, (f(k := v)) i)) xs"
  by (induction xs) auto

lemma modify_ensure_map:
  assumes "distinct xs"
  shows "modify idx g (ensure idx init (map (\<lambda>i. (i, f i)) xs)) =
         map (\<lambda>i. (i, (f(idx := g (if idx \<in> set xs then f idx else init))) i))
             (if idx \<in> set xs then xs else xs @ [idx])"
proof (cases "idx \<in> set xs")
  case True
  then show ?thesis
    using assms by (simp add: modify_def ensure_def Map_has_map Map_get_map Map_set_old)
next
  case False
  have e: "ensure idx init (map (\<lambda>i. (i, f i)) xs) = map (\<lambda>i. (i, (f(idx := init)) i)) (xs @ [idx])"
    using False by (simp add: ensure_def Map_has_map Map_set_new)
  have d: "distinct (xs @ [idx])" using assms False by simp
  show ?thesis
    unfolding e using False d
    by (simp add: modify_def Map_get_map Map_set_old del: map_append)
qed

lemma match_indexed_excl:
  assumes "digit_free pre" "digit_free pre'" "pre \<noteq> pre'" "match_indexed pre n = Some i"
  shows "match_indexed pre' n = None"
proof (cases "match_indexed pre' n")
  case None
  then show ?thesis .
next
  case (Some j)
  then show ?thesis
    using match_indexed_prefix_unique [OF assms(1,2,4) Some] assms(3) by simp
qed

lemma match_exclusive:
  "match_indexed ''key'' n = Some i \<Longrightarrow> match_indexed ''operation'' n = None"
  "match_indexed ''key'' n = Some i \<Longrightarrow> match_indexed ''values'' n = None"
  "match_indexed ''operation'' n = Some i \<Longrightarrow> match_indexed ''key'' n = None"
  "match_indexed ''operation'' n = Some i \<Longrightarrow> match_indexed ''values'' n = None"
  "match_indexed ''values'' n = Some i \<Longrightarrow> match_indexed ''key'' n = None"
  "match_indexed ''values'' n = Some i \<Longrightarrow> match_indexed ''operation'' n = None"
  by (rule match_indexed_excl [of _ _ n i]; simp)+

lemma fragments_snoc:
  "fragments pre (ps @ [p]) i =
     fragments pre ps i @ (if match_indexed pre (fst p) = Some i then [snd p] else [])"
  by (simp add: fragments_def)

lemma last_fragment_snoc:
  "last_fragment pre (ps @ [p]) i =
     (if match_indexed pre (fst p) = Some i then Some (snd p) else last_fragment pre ps i)"
  by (simp add: last_fragment_def fragments_snoc)

lemma collected_values_snoc:
  "collected_values (ps @ [p]) i =
     (if match_indexed ''values'' (fst p) = Some i
      then Some ((case collected_values ps i of None \<Rightarrow> [] | Some old \<Rightarrow> old) @ pieces (snd p))
      else collected_values ps i)"
  by (simp add: collected_values_def fragments_snoc)

lemma fragments_none:
  "i \<notin> set (encounter_order ps) \<Longrightarrow> pre \<in> {''key'', ''operation'', ''values''} \<Longrightarrow>
   fragments pre ps i = []"
proof (induction ps rule: rev_induct)
  case Nil
  then show ?case by (simp add: fragments_def)
next
  case (snoc p ps)
  have ci: "criteria_index (fst p) \<noteq> Some i" and prev: "i \<notin> set (encounter_order ps)"
    using snoc.prems(1) by (auto simp: encounter_order_snoc split: option.splits if_splits)
  have "match_indexed pre (fst p) \<noteq> Some i"
  proof
    assume m: "match_indexed pre (fst p) = Some i"
    consider "pre = ''key''" | "pre = ''operation''" | "pre = ''values''"
      using snoc.prems(2) by blast
    then have "criteria_index (fst p) = Some i"
    proof cases
      case 1
      then show ?thesis using m by (simp add: criteria_index_def)
    next
      case 2
      then show ?thesis
        using m match_exclusive(3) [of "fst p" i] by (simp add: criteria_index_def)
    next
      case 3
      then show ?thesis
        using m match_exclusive(5,6) [of "fst p" i] by (simp add: criteria_index_def)
    qed
    with ci show False by simp
  qed
  then show ?case using snoc.IH [OF prev snoc.prems(2)] by (simp add: fragments_snoc)
qed

lemma collected_none: "i \<notin> set (encounter_order ps) \<Longrightarrow> collected ps i = empty_partial"
  by (simp add: collected_def empty_partial_def last_fragment_def collected_values_def fragments_none)

lemma encounter_order_distinct [simp]: "distinct (encounter_order ps)"
  by (simp add: encounter_order_def)


lemma collected_snoc_key:
  assumes "match_indexed ''key'' (fst p) = Some i"
  shows "collected (ps @ [p]) = (collected ps)(i := (collected ps i)\<lparr>p_key := Some (snd p)\<rparr>)"
  using assms match_exclusive(1,2) [OF assms]
  by (auto simp: fun_eq_iff collected_def last_fragment_snoc collected_values_snoc)

lemma collected_snoc_operation:
  assumes "match_indexed ''operation'' (fst p) = Some i"
  shows "collected (ps @ [p]) = (collected ps)(i := (collected ps i)\<lparr>p_operation := Some (snd p)\<rparr>)"
  using assms match_exclusive(3,4) [OF assms]
  by (auto simp: fun_eq_iff collected_def last_fragment_snoc collected_values_snoc)

lemma collected_snoc_values:
  assumes "match_indexed ''values'' (fst p) = Some i"
  shows "collected (ps @ [p]) = (collected ps)(i := push_values (pieces (snd p)) (collected ps i))"
  using assms match_exclusive(5,6) [OF assms]
  by (auto simp: fun_eq_iff collected_def last_fragment_snoc collected_values_snoc push_values_def
      split: option.splits)

lemma collected_snoc_other:
  assumes "criteria_index (fst p) = None"
  shows "collected (ps @ [p]) = collected ps"
  using assms
  by (auto simp: fun_eq_iff criteria_index_def collected_def last_fragment_snoc
      collected_values_snoc split: option.splits)

lemma criteria_step_collected:
  assumes "criteria_step (fst p) (snd p) (map (\<lambda>i. (i, collected ps i)) (encounter_order ps)) = Inr m"
  shows "m = map (\<lambda>i. (i, collected (ps @ [p]) i)) (encounter_order (ps @ [p]))"
proof (cases "match_indexed ''key'' (fst p)")
  case (Some idx)
  have ci: "criteria_index (fst p) = Some idx" using Some by (simp add: criteria_index_def)
  have "m = modify idx (\<lambda>c. c\<lparr>p_key := Some (snd p)\<rparr>)
              (ensure idx empty_partial (map (\<lambda>i. (i, collected ps i)) (encounter_order ps)))"
    using assms Some by (simp add: criteria_step_def)
  then show ?thesis
    by (simp add: modify_ensure_map encounter_order_snoc ci collected_snoc_key [OF Some]
        collected_none)
next
  case None
  note k = None
  show ?thesis
  proof (cases "match_indexed ''operation'' (fst p)")
    case (Some idx)
    have ci: "criteria_index (fst p) = Some idx" using Some k by (simp add: criteria_index_def)
    have "m = modify idx (\<lambda>c. c\<lparr>p_operation := Some (snd p)\<rparr>)
                (ensure idx empty_partial (map (\<lambda>i. (i, collected ps i)) (encounter_order ps)))"
      using assms Some k by (simp add: criteria_step_def)
    then show ?thesis
      by (simp add: modify_ensure_map encounter_order_snoc ci collected_snoc_operation [OF Some]
          collected_none)
  next
    case None
    note o = None
    show ?thesis
    proof (cases "match_indexed ''values'' (fst p)")
      case (Some idx)
      have ci: "criteria_index (fst p) = Some idx" using Some k o by (simp add: criteria_index_def)
      obtain d where d: "decodeURIComponent (snd p) = Inr d"
        using assms Some k o by (cases "decodeURIComponent (snd p)") (simp_all add: criteria_step_def)
      then have pc: "pieces (snd p) = split_amp_amp [] d" by (simp add: pieces_def)
      have "m = modify idx (push_values (split_amp_amp [] d))
                  (ensure idx (empty_partial\<lparr>p_values := Some []\<rparr>)
                     (map (\<lambda>i. (i, collected ps i)) (encounter_order ps)))"
        using assms Some k o d by (simp add: criteria_step_def)
      moreover have "push_values vs (empty_partial\<lparr>p_values := Some []\<rparr>) = push_values vs empty_partial"
        for vs by (simp add: push_values_def empty_partial_def)
      ultimately show ?thesis
        by (simp add: modify_ensure_map encounter_order_snoc ci collected_snoc_values [OF Some]
            collected_none pc)
    next
      case None
      have ci: "criteria_index (fst p) = None" using None k o by (simp add: criteria_index_def)
      have "m = map (\<lambda>i. (i, collected ps i)) (encounter_order ps)"
        using assms None k o by (simp add: criteria_step_def)
      then show ?thesis
        by (simp add: encounter_order_snoc ci collected_snoc_other [OF ci])
    qed
  qed
qed

lemma criteria_forEach_collected:
  "criteria_forEach ps [] = Inr m \<Longrightarrow>
   m = map (\<lambda>i. (i, collected ps i)) (encounter_order ps)"
proof (induction ps arbitrary: m rule: rev_induct)
  case Nil
  then show ?case by (simp add: encounter_order_def List.map_filter_simps)
next
  case (snoc p ps)
  then obtain m' where m': "criteria_forEach ps [] = Inr m'"
    and st: "criteria_step (fst p) (snd p) m' = Inr m"
    by (auto simp: criteria_forEach_snoc split: sum.splits)
  show ?case
    using criteria_step_collected [of p ps m] st snoc.IH [OF m'] by simp
qed

subsection \<open>The result of decoding\<close>

text \<open>The definitions that evaluate \<^const>\<open>fromQueryString\<close> on a given string.\<close>

lemmas decode_eval =
  fromQueryString_def new_URLSearchParams_def urlencoded_parse_def parse_pair_def
  parse_component_def plus_to_space_def utf8_decode_def code_def hex_value_def
  initial_state_def param_step_def criteria_step_def match_indexed_def is_digit_def
  digits_value_def ensure_def modify_def Map_has_def Map_get_def char_of_bits array_step_def
  empty_partial_def push_values_def array_or_undefined_def number_param_def has_def get_def
  parseInt_def array_set_def utf8_lead_def

lemma fromQueryString_criteria:
  assumes "fromQueryString s = Inr q"
  shows "criteria q =
     List.map_filter (\<lambda>i. materialized (collected (new_URLSearchParams s) i))
       (encounter_order (new_URLSearchParams s))"
proof -
  obtain m where m: "criteria_forEach (new_URLSearchParams s) [] = Inr m"
    and c: "criteria q = criteria_push m []"
    using assms
    by (auto simp: fromQueryString_def params_forEach_eq initial_state_def split: sum.splits)
  show ?thesis
    unfolding c criteria_push_eq criteria_forEach_collected [OF m]
    by (simp add: List.map_filter_def comp_def filter_map)
qed

lemma fromQueryString_numbers:
  assumes "fromQueryString s = Inr q"
  shows "page q = number_param (new_URLSearchParams s) ''page''"
    and "pageSize q = number_param (new_URLSearchParams s) ''pageSize''"
  using assms by (auto simp: fromQueryString_def split: sum.splits)

lemma criteria_step_throws:
  "criteria_step n v m = Inl e \<longleftrightarrow>
     match_indexed ''values'' n \<noteq> None \<and> decodeURIComponent v = Inl e"
proof (cases "match_indexed ''values'' n")
  case None
  then show ?thesis by (simp add: criteria_step_def split: option.splits)
next
  case (Some i)
  then show ?thesis
    using match_exclusive(5,6) [OF Some]
    by (simp add: criteria_step_def split: sum.splits)
qed

lemma criteria_forEach_throws:
  "criteria_forEach ps m = Inl e \<Longrightarrow>
   \<exists>p \<in> set ps. match_indexed ''values'' (fst p) \<noteq> None \<and> decodeURIComponent (snd p) = Inl e"
proof (induction ps arbitrary: m)
  case Nil
  then show ?case by simp
next
  case (Cons p ps)
  show ?case
  proof (cases "criteria_step (fst p) (snd p) m")
    case (Inl e')
    then have "e' = e" using Cons.prems by simp
    then show ?thesis using Inl criteria_step_throws [of "fst p" "snd p" m e] by auto
  next
    case (Inr m')
    then have "criteria_forEach ps m' = Inl e" using Cons.prems by simp
    then show ?thesis using Cons.IH by auto
  qed
qed

lemma criteria_forEach_returns:
  "\<forall>p \<in> set ps. match_indexed ''values'' (fst p) \<noteq> None \<longrightarrow> decodeURIComponent (snd p) \<noteq> Inl URIError
   \<Longrightarrow> \<exists>m'. criteria_forEach ps m = Inr m'"
proof (cases "criteria_forEach ps m")
  case (Inl e)
  assume a: "\<forall>p \<in> set ps. match_indexed ''values'' (fst p) \<noteq> None \<longrightarrow> decodeURIComponent (snd p) \<noteq> Inl URIError"
  have "e = URIError" by (cases e) simp
  then show ?thesis using criteria_forEach_throws [OF Inl] a by auto
next
  case (Inr m')
  then show ?thesis by simp
qed

lemma fromQueryString_throws:
  "fromQueryString s = Inl e \<Longrightarrow>
   \<exists>p \<in> set (new_URLSearchParams s).
      match_indexed ''values'' (fst p) \<noteq> None \<and> decodeURIComponent (snd p) = Inl e"
  using criteria_forEach_throws [of "new_URLSearchParams s" "[]" e]
  by (auto simp: fromQueryString_def params_forEach_eq initial_state_def split: sum.splits)

lemma materialized_collected:
  "materialized (collected ps i) = Some c \<longleftrightarrow>
     (fragments ''key'' ps i \<noteq> [] \<and> key c = last (fragments ''key'' ps i) \<and> key c \<noteq> []
      \<and> fragments ''operation'' ps i \<noteq> [] \<and> operation c = last (fragments ''operation'' ps i)
      \<and> operation c \<noteq> []
      \<and> fragments ''values'' ps i \<noteq> []
      \<and> values c = concat (map pieces (fragments ''values'' ps i)))"
  by (cases c)
     (auto simp: materialized_def collected_def last_fragment_def collected_values_def)

lemma key_fragment_in_order:
  "fragments ''key'' ps i \<noteq> [] \<Longrightarrow> i \<in> set (encounter_order ps)"
  using fragments_none [of i ps "''key''"] by auto

lemma decode_index_10_first:
  "fromQueryString ''key10=a&operation10=EQUAL&values10=1&key2=b&operation2=EQUAL&values2=2'' =
   Inr \<lparr>criteria = [\<lparr>key = ''a'', operation = ''EQUAL'', values = [''1'']\<rparr>,
                     \<lparr>key = ''b'', operation = ''EQUAL'', values = [''2'']\<rparr>],
        select = None, selectAs = None, orderBy = None, orderByDirection = None,
        page = None, pageSize = None\<rparr>"
  by (simp add: decode_eval)

lemma decode_stray_operation:
  "fromQueryString ''operation2=EQUAL'' =
   Inr \<lparr>criteria = [], select = None, selectAs = None, orderBy = None, orderByDirection = None,
        page = None, pageSize = None\<rparr>"
  by (simp add: decode_eval)

lemma decode_bad_numbers:
  "fromQueryString ''page=abc&pageSize=ten'' =
   Inr \<lparr>criteria = [], select = None, selectAs = None, orderBy = None, orderByDirection = None,
        page = Some NaN, pageSize = Some NaN\<rparr>"
  by (simp add: decode_eval)

lemma set_map_filter: "set (List.map_filter f xs) = {y. \<exists>x \<in> set xs. f x = Some y}"
  by (induction xs) (auto simp: List.map_filter_simps split: option.splits)

lemma number_param_eq: "number_param ps name = map_option parseInt (get ps name)"
proof (cases "get ps name")
  case None
  then show ?thesis by (simp add: number_param_def)
next
  case (Some v)
  then have "(name, v) \<in> set ps" by (simp add: get_def map_of_SomeD)
  then have "has ps name" by (force simp: has_def)
  then show ?thesis using Some by (simp add: number_param_def)
qed

section \<open>Parsing what was serialized\<close>

lemma code_less_256: "code c < 256"
  by (simp add: code_def)

lemma char_of_code: "char_of (code c) = c"
  by (simp add: code_def)

lemma char_eq_code: "c = d \<longleftrightarrow> code c = code d"
  by (auto simp: code_def)

lemma hex_digit_code: "n < 16 \<Longrightarrow> code (hex_digit n) = (if n < 10 then 48 + n else 55 + n)"
  by (simp add: hex_digit_def code_char_of)

lemma hex_value_hex_digit: "n < 16 \<Longrightarrow> hex_value (hex_digit n) = Some n"
  by (simp add: hex_value_def hex_digit_code)

lemma code_literals [simp]:
  "code CHR ''%'' = 37" "code CHR ''+'' = 43" "code CHR '' '' = 32" "code CHR ''&'' = 38"
  "code CHR ''='' = 61" "code CHR ''?'' = 63" "code CHR ''*'' = 42" "code CHR ''-'' = 45"
  "code CHR ''.'' = 46" "code CHR ''_'' = 95"
  by (simp_all add: code_def)

lemma safe_code:
  "urlencoded_safe c \<Longrightarrow> code c \<notin> {37, 43, 32, 38, 61, 63}"
  by (auto simp: urlencoded_safe_def)

lemma serialized_chars:
  "d \<in> set (urlencoded_byte_serialize s) \<Longrightarrow> code d \<notin> {38, 61, 63}"
proof (induction s)
  case Nil
  then show ?case by simp
next
  case (Cons c s)
  have h: "code (hex_digit (code c div 16)) \<notin> {38, 61, 63}"
          "code (hex_digit (code c mod 16)) \<notin> {38, 61, 63}"
    using code_less_256 [of c] by (simp_all add: hex_digit_code)
  show ?case
    using Cons safe_code [of c] h
    by (auto simp: percent_encode_byte_def split: if_splits)
qed

lemma serialized_no_amp: "CHR ''&'' \<notin> set (urlencoded_byte_serialize s)"
  using serialized_chars [of "CHR ''&''" s] by auto

lemma serialized_no_eq: "CHR ''='' \<notin> set (urlencoded_byte_serialize s)"
  using serialized_chars [of "CHR ''=''" s] by auto

lemma serialized_no_question: "CHR ''?'' \<notin> set (urlencoded_byte_serialize s)"
  using serialized_chars [of "CHR ''?''" s] by auto

lemma percent_decode_serialize:
  "percent_decode (plus_to_space (urlencoded_byte_serialize s)) = s"
proof (induction s)
  case Nil
  then show ?case by (simp add: plus_to_space_def)
next
  case (Cons c s)
  have ih: "percent_decode (map (\<lambda>c. if c = CHR ''+'' then CHR '' '' else c) (urlencoded_byte_serialize s)) = s"
    using Cons by (simp add: plus_to_space_def)
  show ?case
  proof (cases "c = CHR '' ''")
    case True
    then show ?thesis using ih by (simp add: plus_to_space_def)
  next
    case False
    note ns = False
    show ?thesis
    proof (cases "urlencoded_safe c")
      case True
      then have "c \<noteq> CHR ''+''" "c \<noteq> CHR ''%''"
        using safe_code [of c] by auto
      then show ?thesis using ih ns True by (simp add: plus_to_space_def)
    next
      case False
      let ?h = "hex_digit (code c div 16)" and ?l = "hex_digit (code c mod 16)"
      have hi: "code c div 16 < 16" using code_less_256 [of c] by simp
      have lo: "code c mod 16 < 16" by simp
      have np: "?h \<noteq> CHR ''+''" "?l \<noteq> CHR ''+''"
        using hex_digit_code [OF hi] hex_digit_code [OF lo]
        by (auto simp: char_eq_code split: if_splits)
      have "char_of (16 * (code c div 16) + code c mod 16) = c"
        using char_of_code [of c] by simp
      then show ?thesis
        using ih ns False np hex_value_hex_digit [OF hi] hex_value_hex_digit [OF lo]
        by (simp add: plus_to_space_def percent_encode_byte_def)
    qed
  qed
qed

lemma parse_component_serialize:
  "well_formed s \<Longrightarrow> parse_component (urlencoded_byte_serialize s) = s"
  by (simp add: parse_component_def percent_decode_serialize well_formed_def)

lemma parse_pair_serialize:
  assumes "well_formed (fst p)" "well_formed (snd p)"
  shows "parse_pair (serialize_pair p) = p"
proof -
  let ?n = "urlencoded_byte_serialize (fst p)" and ?v = "urlencoded_byte_serialize (snd p)"
  have t: "takeWhile (\<lambda>c. c \<noteq> CHR ''='') (?n @ CHR ''='' # ?v) = ?n"
    using serialized_no_eq [of "fst p"] by (subst takeWhile_append2) auto
  have d: "dropWhile (\<lambda>c. c \<noteq> CHR ''='') (?n @ CHR ''='' # ?v) = CHR ''='' # ?v"
    using serialized_no_eq [of "fst p"] by (subst dropWhile_append2) auto
  show ?thesis
    using assms by (simp add: parse_pair_def serialize_pair_def t d parse_component_serialize)
qed

lemma serialize_pair_chars:
  "serialize_pair p \<noteq> []" "CHR ''&'' \<notin> set (serialize_pair p)" "CHR ''?'' \<notin> set (serialize_pair p)"
  using serialized_no_amp serialized_no_question by (simp_all add: serialize_pair_def)

lemma split_on_append:
  "sep \<notin> set x \<Longrightarrow> split_on sep cur (x @ rest) = split_on sep (cur @ x) rest"
  by (induction x arbitrary: cur) auto

lemma split_on_join:
  "xs \<noteq> [] \<Longrightarrow> \<forall>x \<in> set xs. CHR ''&'' \<notin> set x \<Longrightarrow>
   split_on CHR ''&'' cur (join_amp xs) = (cur @ hd xs) # tl xs"
proof (induction xs arbitrary: cur rule: join_amp.induct)
  case 1
  then show ?case by simp
next
  case (2 x)
  then show ?case using split_on_append [of "CHR ''&''" x cur "[]"] by simp
next
  case (3 x y ys)
  have "split_on CHR ''&'' cur (x @ CHR ''&'' # join_amp (y # ys))
        = split_on CHR ''&'' (cur @ x) (CHR ''&'' # join_amp (y # ys))"
    using 3(2,3) by (simp add: split_on_append)
  also have "\<dots> = (cur @ x) # split_on CHR ''&'' [] (join_amp (y # ys))" by simp
  also have "\<dots> = (cur @ x) # y # ys" using 3 by simp
  finally show ?case by simp
qed

lemma join_amp_no_question:
  "\<forall>x \<in> set xs. CHR ''?'' \<notin> set x \<Longrightarrow> CHR ''?'' \<notin> set (join_amp xs)"
  by (induction xs rule: join_amp.induct) auto

lemma parse_serialize:
  assumes "\<forall>p \<in> set ps. well_formed (fst p) \<and> well_formed (snd p)"
  shows "new_URLSearchParams (params_toString ps) = ps"
proof (cases "ps = []")
  case True
  then show ?thesis
    by (simp add: new_URLSearchParams_def params_toString_def urlencoded_parse_def)
next
  case False
  let ?xs = "map serialize_pair ps"
  have nq: "CHR ''?'' \<notin> set (join_amp ?xs)"
    by (rule join_amp_no_question) (simp add: serialize_pair_chars)
  have strip: "(case join_amp ?xs of [] \<Rightarrow> join_amp ?xs
                | c # cs \<Rightarrow> if c = CHR ''?'' then cs else join_amp ?xs) = join_amp ?xs"
    using nq by (cases "join_amp ?xs") auto
  have sp: "split_on CHR ''&'' [] (join_amp ?xs) = ?xs"
    using split_on_join [of ?xs "[]"] False by (simp add: serialize_pair_chars)
  have "map parse_pair (filter (\<lambda>piece. piece \<noteq> []) ?xs) = ps"
    using assms by (simp add: serialize_pair_chars filter_map comp_def parse_pair_serialize map_idI)
  then show ?thesis
    by (simp add: new_URLSearchParams_def params_toString_def urlencoded_parse_def strip sp
        del: split_on.simps)
qed

section \<open>Decoding what was encoded\<close>

text \<open>
  A value is plain when it has no percent sign and nowhere the two characters \<open>&&\<close>:
  \<^verbatim>\<open>decodeURIComponent\<close> and \<^verbatim>\<open>split("&&")\<close> then leave it as it is. A criterion
  is encodable when it has a key, an operation and at least one value, all values plain.
\<close>

fun contains_amp_amp :: "string \<Rightarrow> bool" where
  "contains_amp_amp (c # d # r) = ((c = CHR ''&'' \<and> d = CHR ''&'') \<or> contains_amp_amp (d # r))"
| "contains_amp_amp _ = False"

definition plain_value :: "string \<Rightarrow> bool" where
  "plain_value v = (CHR ''%'' \<notin> set v \<and> \<not> contains_amp_amp v)"

definition complete :: "Criteria \<Rightarrow> Partial_Criteria" where
  "complete c = \<lparr>p_key = Some (key c), p_operation = Some (operation c), p_values = Some (values c)\<rparr>"

lemma decodeURIComponent_plain: "CHR ''%'' \<notin> set v \<Longrightarrow> decodeURIComponent v = Inr v"
  by (induction v) auto

lemma split_amp_amp_plain: "\<not> contains_amp_amp v \<Longrightarrow> split_amp_amp cur v = [cur @ v]"
  by (induction cur v rule: split_amp_amp.induct) auto

lemma pieces_plain: "plain_value v \<Longrightarrow> pieces v = [v]"
  by (simp add: pieces_def plain_value_def decodeURIComponent_plain split_amp_amp_plain)

lemma criteria_forEach_append:
  "criteria_forEach (ps @ ps') m =
     (case criteria_forEach ps m of Inl e \<Rightarrow> Inl e | Inr m' \<Rightarrow> criteria_forEach ps' m')"
  by (induction ps arbitrary: m) (auto split: sum.splits)

lemma criteria_forEach_other:
  "\<forall>p \<in> set ps. criteria_index (fst p) = None \<Longrightarrow> criteria_forEach ps m = Inr m"
proof (induction ps)
  case Nil
  then show ?case by simp
next
  case (Cons p ps)
  have "criteria_step (fst p) (snd p) m = Inr m"
    using Cons.prems by (auto simp: criteria_index_def criteria_step_def split: option.splits)
  then show ?case using Cons by simp
qed

lemma Map_set_fresh: "k \<notin> fst ` set m \<Longrightarrow> Map_set m k v = m @ [(k, v)]"
  by (induction m) auto

lemma Map_set_last: "k \<notin> fst ` set m \<Longrightarrow> Map_set (m @ [(k, e)]) k v = m @ [(k, v)]"
  by (induction m) auto

lemma Map_get_last: "k \<notin> fst ` set m \<Longrightarrow> Map_get (m @ [(k, e)]) k = Some e"
  by (induction m) (auto simp: Map_get_def)

lemma ensure_fresh: "k \<notin> fst ` set m \<Longrightarrow> ensure k init m = m @ [(k, init)]"
  by (simp add: ensure_def Map_has_def Map_set_fresh)

lemma ensure_last: "ensure k init (m @ [(k, e)]) = m @ [(k, e)]"
  by (simp add: ensure_def Map_has_def)

lemma modify_last: "k \<notin> fst ` set m \<Longrightarrow> modify k g (m @ [(k, e)]) = m @ [(k, g e)]"
  by (simp add: modify_def Map_get_last Map_set_last)

lemma values_loop:
  assumes "k \<notin> fst ` set m" "list_all plain_value vs" "vs \<noteq> [] \<or> p_values e \<noteq> None"
  shows "criteria_forEach (map (\<lambda>v. (indexed ''values'' k, v)) vs) (m @ [(k, e)]) =
         Inr (m @ [(k, if vs = [] then e
                       else e\<lparr>p_values := Some ((case p_values e of None \<Rightarrow> [] | Some old \<Rightarrow> old) @ vs)\<rparr>)])"
  using assms
proof (induction vs arbitrary: e)
  case Nil
  then show ?case by simp
next
  case (Cons v vs)
  have mk: "match_indexed ''key'' (indexed ''values'' k) = None"
    and mo: "match_indexed ''operation'' (indexed ''values'' k) = None"
    by (simp_all add: match_indexed_other)
  have pv: "plain_value v" and rest: "list_all plain_value vs" using Cons.prems(2) by simp_all
  have d: "decodeURIComponent v = Inr v" and s: "split_amp_amp [] v = [v]"
    using pv by (simp_all add: plain_value_def decodeURIComponent_plain split_amp_amp_plain)
  let ?e' = "push_values [v] e"
  have step: "criteria_step (indexed ''values'' k) v (m @ [(k, e)]) = Inr (m @ [(k, ?e')])"
    using Cons.prems(1)
    by (simp add: criteria_step_def mk mo match_indexed_same d s ensure_last modify_last)
  have pe: "p_values ?e' = Some ((case p_values e of None \<Rightarrow> [] | Some old \<Rightarrow> old) @ [v])"
    by (simp add: push_values_def split: option.splits)
  have ih: "criteria_forEach (map (\<lambda>v. (indexed ''values'' k, v)) vs) (m @ [(k, ?e')]) =
         Inr (m @ [(k, if vs = [] then ?e'
                       else ?e'\<lparr>p_values := Some ((case p_values ?e' of None \<Rightarrow> [] | Some old \<Rightarrow> old) @ vs)\<rparr>)])"
    using Cons.IH [of ?e'] Cons.prems(1) rest pe by simp
  show ?case
    using step ih pe by (auto simp: push_values_def split: option.splits)
qed

lemma criterion_block_loop:
  assumes "k \<notin> fst ` set m" "list_all plain_value (values c)" "values c \<noteq> []"
  shows "criteria_forEach (criterion_block k c) m = Inr (m @ [(k, complete c)])"
proof -
  have mo: "match_indexed ''key'' (indexed ''operation'' k) = None"
    by (simp add: match_indexed_other)
  let ?e = "\<lparr>p_key = Some (key c), p_operation = Some (operation c), p_values = None\<rparr>"
  have a: "criteria_step (indexed ''key'' k) (key c) m =
           Inr (m @ [(k, empty_partial\<lparr>p_key := Some (key c)\<rparr>)])"
    using assms(1) by (simp add: criteria_step_def match_indexed_same ensure_fresh modify_last)
  have b: "criteria_step (indexed ''operation'' k) (operation c)
             (m @ [(k, empty_partial\<lparr>p_key := Some (key c)\<rparr>)]) = Inr (m @ [(k, ?e)])"
    using assms(1)
    by (simp add: criteria_step_def mo match_indexed_same ensure_last modify_last empty_partial_def)
  have v: "criteria_forEach (map (\<lambda>v. (indexed ''values'' k, v)) (values c)) (m @ [(k, ?e)]) =
           Inr (m @ [(k, complete c)])"
    using values_loop [OF assms(1,2), of ?e] assms(3) by (simp add: complete_def)
  show ?thesis
    using a b v by (simp add: criterion_block_def)
qed

definition encodable :: "Criteria \<Rightarrow> bool" where
  "encodable c =
     (key c \<noteq> [] \<and> operation c \<noteq> [] \<and> values c \<noteq> [] \<and> list_all plain_value (values c))"

lemma criteria_blocks_loop:
  assumes "\<forall>k \<in> fst ` set m. k < start" "list_all encodable cs"
  shows "criteria_forEach (criteria_blocks start cs) m =
         Inr (m @ map (\<lambda>(i, c). (i, complete c)) (enumerate start cs))"
  using assms
proof (induction cs arbitrary: start m)
  case Nil
  then show ?case by (simp add: criteria_blocks_def)
next
  case (Cons c cs)
  have fresh: "start \<notin> fst ` set m" using Cons.prems(1) by auto
  have e: "encodable c" and rest: "list_all encodable cs" using Cons.prems(2) by simp_all
  have blk: "criteria_forEach (criterion_block start c) m = Inr (m @ [(start, complete c)])"
    using criterion_block_loop [OF fresh] e by (simp add: encodable_def)
  have below: "\<forall>k \<in> fst ` set (m @ [(start, complete c)]). k < Suc start"
    using Cons.prems(1) by auto
  have split: "criteria_blocks start (c # cs) = criterion_block start c @ criteria_blocks (Suc start) cs"
    by (simp add: criteria_blocks_def)
  show ?case
    unfolding split criteria_forEach_append blk
    using Cons.IH [OF below rest] by simp
qed

lemma criteria_push_complete:
  "list_all encodable cs \<Longrightarrow>
   criteria_push (map (\<lambda>(i, c). (i, complete c)) (enumerate start cs)) [] = cs"
proof -
  assume a: "list_all encodable cs"
  have "List.map_filter materialized (map complete cs) = cs"
    using a by (induction cs) (auto simp: materialized_def complete_def encodable_def)
  moreover have "map snd (map (\<lambda>(i, c). (i, complete c)) (enumerate start cs)) = map complete cs"
    by (induction cs arbitrary: start) auto
  ultimately show ?thesis by (simp add: criteria_push_eq)
qed

text \<open>
  The strings of a query are texts (well-formed), and its optional arrays have a string at
  every position and no more elements than a JavaScript array can have. Decoding gives an
  absent field for an empty array: \<^verbatim>\<open>select.length > 0 ? select : undefined\<close>.
\<close>

definition text_criterion :: "Criteria \<Rightarrow> bool" where
  "text_criterion c =
     (well_formed (key c) \<and> well_formed (operation c) \<and> list_all well_formed (values c))"

definition text_array :: "string array option \<Rightarrow> bool" where
  "text_array field =
     (case field of
        None \<Rightarrow> True
      | Some a \<Rightarrow>
          length a \<le> 4294967295
          \<and> list_all (\<lambda>x. case x of None \<Rightarrow> False | Some v \<Rightarrow> well_formed v) a)"

definition omit_empty :: "string array option \<Rightarrow> string array option" where
  "omit_empty field = (case field of None \<Rightarrow> None | Some a \<Rightarrow> if a = [] then None else Some a)"

definition canonical :: "DynamicQuery \<Rightarrow> DynamicQuery" where
  "canonical q =
     q\<lparr>select := omit_empty (select q), selectAs := omit_empty (selectAs q),
       orderBy := omit_empty (orderBy q), orderByDirection := omit_empty (orderByDirection q)\<rparr>"

subsection \<open>Names and numbers are ASCII\<close>

lemma ascii_well_formed: "\<forall>c \<in> set s. code c < 128 \<Longrightarrow> well_formed s"
proof -
  assume a: "\<forall>c \<in> set s. code c < 128"
  then have "utf8_decode_from Idle s = s" by (induction s) auto
  then show ?thesis by (simp add: well_formed_def utf8_decode_def)
qed

lemma decimal_ascii: "c \<in> set (decimal n) \<Longrightarrow> code c < 128"
  using decimal_digits [of n] by (auto simp: list_all_iff is_digit_def)

lemma indexed_well_formed:
  "\<forall>c \<in> set pre. code c < 128 \<Longrightarrow> well_formed (indexed pre i)"
  by (rule ascii_well_formed) (auto simp: indexed_def dest: decimal_ascii)

lemma number_toString_well_formed: "well_formed (number_toString x)"
proof (rule ascii_well_formed)
  show "\<forall>c \<in> set (number_toString x). code c < 128"
    by (cases x) (auto simp: number_toString_def code_def dest: decimal_ascii)
qed

lemma names_well_formed [simp]:
  "well_formed (indexed ''key'' i)" "well_formed (indexed ''operation'' i)"
  "well_formed (indexed ''values'' i)" "well_formed (indexed ''select'' i)"
  "well_formed (indexed ''selectAs'' i)" "well_formed (indexed ''orderBy'' i)"
  "well_formed (indexed ''orderByDirection'' i)" "well_formed ''page''" "well_formed ''pageSize''"
  by (rule indexed_well_formed ascii_well_formed; simp add: code_def)+

subsection \<open>parseInt of a printed number\<close>

lemma trim_start_digit: "is_digit c \<Longrightarrow> trim_start (c # cs) = c # cs"
  by (simp add: is_digit_def)

lemma takeWhile_digits: "list_all is_digit ds \<Longrightarrow> takeWhile is_digit ds = ds"
  by (induction ds) auto

lemma parseInt_digits:
  assumes "ds \<noteq> []" "list_all is_digit ds"
  shows "parseInt ds = Num (int (digits_value ds))"
    and "parseInt (CHR ''-'' # ds) = Num (- int (digits_value ds))"
proof -
  obtain c cs where ds: "ds = c # cs" using assms(1) by (cases ds) auto
  then have c: "is_digit c" using assms(2) by simp
  have t: "trim_start ds = ds" unfolding ds by (rule trim_start_digit [OF c])
  have h: "hd ds \<noteq> CHR ''-''" "hd ds \<noteq> CHR ''+''" using c by (auto simp: ds is_digit_def)
  have tw: "takeWhile is_digit ds = ds" by (rule takeWhile_digits [OF assms(2)])
  show "parseInt ds = Num (int (digits_value ds))"
    unfolding parseInt_def Let_def t using h assms(1) by (simp add: tw)
  have t2: "trim_start (CHR ''-'' # ds) = CHR ''-'' # ds" by simp
  show "parseInt (CHR ''-'' # ds) = Num (- int (digits_value ds))"
    unfolding parseInt_def Let_def t2 using assms(1) by (simp add: tw)
qed

lemma match_indexed_parseInt:
  "match_indexed pre name = Some i \<Longrightarrow> parseInt (drop (length pre) name) = Num (int i)"
proof -
  assume "match_indexed pre name = Some i"
  then have "drop (length pre) name \<noteq> []" "list_all is_digit (drop (length pre) name)"
    "digits_value (drop (length pre) name) = i"
    by (simp_all add: match_indexed_def split: if_splits)
  then show ?thesis using parseInt_digits(1) by simp
qed

lemma parseInt_toString: "parseInt (number_toString x) = x"
proof (cases x)
  case NaN
  then show ?thesis by (simp add: number_toString_def parseInt_def is_digit_def code_def)
next
  case (Num i)
  show ?thesis
    using parseInt_digits [OF decimal_not_empty decimal_digits, of "nat i"]
          parseInt_digits [OF decimal_not_empty decimal_digits, of "nat (- i)"]
    by (simp add: Num number_toString_def digits_value_decimal)
qed

subsection \<open>The arrays\<close>

lemma array_forEach_append:
  "array_forEach pre (ps @ ps') a = array_forEach pre ps' (array_forEach pre ps a)"
  by (induction ps arbitrary: a) auto

lemma array_forEach_other:
  "\<forall>p \<in> set ps. match_indexed pre (fst p) = None \<Longrightarrow> array_forEach pre ps a = a"
  by (induction ps arbitrary: a) (auto simp: array_step_def)

lemma array_entries_loop:
  assumes "list_all (\<lambda>x. x \<noteq> None) a" "start + length a \<le> 4294967295" "length b = start"
  shows "array_forEach pre (array_entries pre start a) b = b @ a"
  using assms
proof (induction a arbitrary: start b)
  case Nil
  then show ?case by (simp add: array_entries_def)
next
  case (Cons x a)
  then obtain v where x: "x = Some v" by auto
  have e: "array_entries pre start (x # a) = (indexed pre start, v) # array_entries pre (Suc start) a"
    by (simp add: array_entries_def x)
  have st: "array_step pre (indexed pre start) v b = b @ [Some v]"
    using Cons.prems(2,3) by (simp add: array_step_def match_indexed_same array_set_def)
  show ?case
    unfolding e using Cons.IH [of "Suc start" "b @ [Some v]"] Cons.prems st x by simp
qed

lemma array_block_loop:
  assumes "text_array field"
  shows "array_or_undefined (array_forEach pre (array_block pre field) []) = omit_empty field"
proof (cases field)
  case None
  then show ?thesis by (simp add: array_block_def array_or_undefined_def omit_empty_def)
next
  case (Some a)
  have "list_all (\<lambda>x. x \<noteq> None) a" "0 + length a \<le> 4294967295"
    using assms Some by (auto simp: text_array_def list_all_iff split: option.splits)
  then have "array_forEach pre (array_entries pre 0 a) [] = a"
    using array_entries_loop [of a 0 "[]" pre] by simp
  then show ?thesis by (simp add: Some array_block_def array_or_undefined_def omit_empty_def)
qed

subsection \<open>The names of a block\<close>

lemma criteria_blocks_names:
  "p \<in> set (criteria_blocks start cs) \<Longrightarrow> \<exists>i. fst p \<in> criterion_names i"
  by (induction cs arbitrary: start)
     (auto simp: criteria_blocks_def criterion_block_def criterion_names_def)

lemma array_block_names: "p \<in> set (array_block pre field) \<Longrightarrow> \<exists>i. fst p = indexed pre i"
proof (cases field)
  case None
  assume "p \<in> set (array_block pre field)"
  then show ?thesis using None by (simp add: array_block_def)
next
  case (Some a)
  assume "p \<in> set (array_block pre field)"
  then have "p \<in> set (array_entries pre 0 a)" using Some by (simp add: array_block_def)
  moreover have "p \<in> set (array_entries pre start a) \<Longrightarrow> \<exists>i. fst p = indexed pre i" for start
    by (induction a arbitrary: start) (auto simp: array_entries_def split: option.splits)
  ultimately show ?thesis by blast
qed

lemma number_block_names: "p \<in> set (number_block name field) \<Longrightarrow> fst p = name"
  by (cases field) (auto simp: number_block_def)

lemma criterion_name_no_match:
  assumes "fst p \<in> criterion_names i" "digit_free pre"
    "pre \<noteq> ''key''" "pre \<noteq> ''operation''" "pre \<noteq> ''values''"
  shows "match_indexed pre (fst p) = None"
  using assms by (auto simp: criterion_names_def match_indexed_other)

lemma criteria_index_indexed:
  assumes "digit_free pre" "pre \<noteq> ''key''" "pre \<noteq> ''operation''" "pre \<noteq> ''values''"
  shows "criteria_index (indexed pre i) = None"
  using assms by (simp add: criteria_index_def match_indexed_other)

lemma criteria_index_digit_free: "digit_free name \<Longrightarrow> criteria_index name = None"
  by (simp add: criteria_index_def match_indexed_digit_free)

subsection \<open>The parameters of an encoded query\<close>

lemma criteria_blocks_member:
  "p \<in> set (criteria_blocks start cs) \<Longrightarrow> \<exists>i c. c \<in> set cs \<and> p \<in> set (criterion_block i c)"
proof (induction cs arbitrary: start)
  case Nil
  then show ?case by (simp add: criteria_blocks_def)
next
  case (Cons c cs)
  have "criteria_blocks start (c # cs) = criterion_block start c @ criteria_blocks (Suc start) cs"
    by (simp add: criteria_blocks_def)
  then consider "p \<in> set (criterion_block start c)" | "p \<in> set (criteria_blocks (Suc start) cs)"
    using Cons.prems by auto
  then show ?case
  proof cases
    case 1
    then show ?thesis by auto
  next
    case 2
    then obtain i c' where "c' \<in> set cs" "p \<in> set (criterion_block i c')"
      using Cons.IH by blast
    then show ?thesis by auto
  qed
qed

lemma criteria_blocks_well_formed:
  assumes "list_all text_criterion cs" "p \<in> set (criteria_blocks start cs)"
  shows "well_formed (fst p) \<and> well_formed (snd p)"
proof -
  obtain i c where c: "c \<in> set cs" and p: "p \<in> set (criterion_block i c)"
    using criteria_blocks_member [OF assms(2)] by blast
  have "text_criterion c" using assms(1) c by (simp add: list_all_iff)
  then show ?thesis
    using p by (auto simp: criterion_block_def text_criterion_def list_all_iff)
qed

lemma array_entries_member:
  "p \<in> set (array_entries pre start a) \<Longrightarrow> \<exists>i v. Some v \<in> set a \<and> p = (indexed pre i, v)"
proof (induction a arbitrary: start)
  case Nil
  then show ?case by (simp add: array_entries_def)
next
  case (Cons x a)
  have e: "array_entries pre start (x # a) =
        (case x of None \<Rightarrow> [] | Some v \<Rightarrow> [(indexed pre start, v)]) @ array_entries pre (Suc start) a"
    by (simp add: array_entries_def)
  consider "p \<in> set (case x of None \<Rightarrow> [] | Some v \<Rightarrow> [(indexed pre start, v)])"
    | "p \<in> set (array_entries pre (Suc start) a)"
    using Cons.prems unfolding e by auto
  then show ?case
  proof cases
    case 1
    then show ?thesis by (cases x) auto
  next
    case 2
    then obtain i v where "Some v \<in> set a" "p = (indexed pre i, v)" using Cons.IH by blast
    then show ?thesis by auto
  qed
qed

lemma array_entries_well_formed:
  assumes "list_all (\<lambda>x. case x of None \<Rightarrow> False | Some v \<Rightarrow> well_formed v) a"
    "\<forall>i. well_formed (indexed pre i)" "p \<in> set (array_entries pre start a)"
  shows "well_formed (fst p) \<and> well_formed (snd p)"
proof -
  obtain i v where v: "Some v \<in> set a" and p: "p = (indexed pre i, v)"
    using array_entries_member [OF assms(3)] by blast
  have "well_formed v" using assms(1) v by (auto simp: list_all_iff)
  then show ?thesis using assms(2) p by simp
qed

lemma array_block_well_formed:
  "text_array field \<Longrightarrow> \<forall>i. well_formed (indexed pre i) \<Longrightarrow>
   p \<in> set (array_block pre field) \<Longrightarrow> well_formed (fst p) \<and> well_formed (snd p)"
proof (cases field)
  case None
  assume "p \<in> set (array_block pre field)"
  then show ?thesis using None by (simp add: array_block_def)
next
  case (Some a)
  assume t: "text_array field" and n: "\<forall>i. well_formed (indexed pre i)"
    and p: "p \<in> set (array_block pre field)"
  have "list_all (\<lambda>x. case x of None \<Rightarrow> False | Some v \<Rightarrow> well_formed v) a"
    using t Some by (simp add: text_array_def)
  moreover have "p \<in> set (array_entries pre 0 a)" using p Some by (simp add: array_block_def)
  ultimately show ?thesis using array_entries_well_formed n by blast
qed

lemma number_block_well_formed:
  "well_formed name \<Longrightarrow> p \<in> set (number_block name field) \<Longrightarrow>
   well_formed (fst p) \<and> well_formed (snd p)"
  by (cases field) (auto simp: number_block_def number_toString_well_formed)

lemma emission_well_formed:
  assumes "list_all text_criterion (criteria q)" "text_array (select q)" "text_array (selectAs q)"
    "text_array (orderBy q)" "text_array (orderByDirection q)"
  shows "\<forall>p \<in> set (emission_order q). well_formed (fst p) \<and> well_formed (snd p)"
proof
  fix p assume "p \<in> set (emission_order q)"
  then consider "p \<in> set (criteria_blocks 0 (criteria q))"
    | "p \<in> set (array_block ''select'' (select q))"
    | "p \<in> set (array_block ''selectAs'' (selectAs q))"
    | "p \<in> set (array_block ''orderBy'' (orderBy q))"
    | "p \<in> set (array_block ''orderByDirection'' (orderByDirection q))"
    | "p \<in> set (number_block ''page'' (page q))"
    | "p \<in> set (number_block ''pageSize'' (pageSize q))"
    by (auto simp: emission_order_def)
  then show "well_formed (fst p) \<and> well_formed (snd p)"
  proof cases
    case 1
    then show ?thesis using criteria_blocks_well_formed [OF assms(1)] by blast
  next
    case 2
    then show ?thesis using array_block_well_formed [OF assms(2), of "''select''" p] by simp
  next
    case 3
    then show ?thesis using array_block_well_formed [OF assms(3), of "''selectAs''" p] by simp
  next
    case 4
    then show ?thesis using array_block_well_formed [OF assms(4), of "''orderBy''" p] by simp
  next
    case 5
    then show ?thesis using array_block_well_formed [OF assms(5), of "''orderByDirection''" p] by simp
  next
    case 6
    then show ?thesis using number_block_well_formed [of "''page''" p "page q"] by simp
  next
    case 7
    then show ?thesis using number_block_well_formed [of "''pageSize''" p "pageSize q"] by simp
  qed
qed

lemma no_match_criteria_blocks:
  assumes "digit_free pre" "pre \<noteq> ''key''" "pre \<noteq> ''operation''" "pre \<noteq> ''values''"
  shows "\<forall>p \<in> set (criteria_blocks start cs). match_indexed pre (fst p) = None"
  using criteria_blocks_names criterion_name_no_match [OF _ assms] by blast

lemma no_match_array_block:
  assumes "digit_free pre" "digit_free pre'" "pre \<noteq> pre'"
  shows "\<forall>p \<in> set (array_block pre' field). match_indexed pre (fst p) = None"
proof
  fix p assume "p \<in> set (array_block pre' field)"
  then obtain i where "fst p = indexed pre' i" using array_block_names by blast
  then show "match_indexed pre (fst p) = None" using assms by (simp add: match_indexed_other)
qed

lemma no_match_number_block:
  assumes "digit_free name"
  shows "\<forall>p \<in> set (number_block name field). match_indexed pre (fst p) = None"
  using number_block_names [of _ name field] assms by (auto simp: match_indexed_digit_free)

lemma no_criteria_array_block:
  assumes "digit_free pre" "pre \<noteq> ''key''" "pre \<noteq> ''operation''" "pre \<noteq> ''values''"
  shows "\<forall>p \<in> set (array_block pre field). criteria_index (fst p) = None"
proof
  fix p assume "p \<in> set (array_block pre field)"
  then obtain i where "fst p = indexed pre i" using array_block_names by blast
  then show "criteria_index (fst p) = None" using assms by (simp add: criteria_index_indexed)
qed

lemma no_criteria_number_block:
  assumes "digit_free name"
  shows "\<forall>p \<in> set (number_block name field). criteria_index (fst p) = None"
  using number_block_names [of _ name field] assms by (auto simp: criteria_index_digit_free)

lemma prefixes_differ [simp]:
  "''select'' \<noteq> ''selectAs''" "''select'' \<noteq> ''orderBy''" "''select'' \<noteq> ''orderByDirection''"
  "''selectAs'' \<noteq> ''orderBy''" "''selectAs'' \<noteq> ''orderByDirection''"
  "''orderBy'' \<noteq> ''orderByDirection''"
  by simp_all

lemma criteria_of_emission:
  assumes "list_all encodable (criteria q)"
  shows "criteria_forEach (emission_order q) [] =
         Inr (map (\<lambda>(i, c). (i, complete c)) (enumerate 0 (criteria q)))"
proof -
  let ?rest = "array_block ''select'' (select q) @ array_block ''selectAs'' (selectAs q)
     @ array_block ''orderBy'' (orderBy q) @ array_block ''orderByDirection'' (orderByDirection q)
     @ number_block ''page'' (page q) @ number_block ''pageSize'' (pageSize q)"
  have other: "\<forall>p \<in> set ?rest. criteria_index (fst p) = None"
    using no_criteria_array_block [of "''select''" "select q"]
          no_criteria_array_block [of "''selectAs''" "selectAs q"]
          no_criteria_array_block [of "''orderBy''" "orderBy q"]
          no_criteria_array_block [of "''orderByDirection''" "orderByDirection q"]
          no_criteria_number_block [of "''page''" "page q"]
          no_criteria_number_block [of "''pageSize''" "pageSize q"]
    by auto
  have blocks: "criteria_forEach (criteria_blocks 0 (criteria q)) [] =
         Inr (map (\<lambda>(i, c). (i, complete c)) (enumerate 0 (criteria q)))"
    using criteria_blocks_loop [of "[]" 0 "criteria q"] assms by simp
  have e: "emission_order q = criteria_blocks 0 (criteria q) @ ?rest"
    by (simp add: emission_order_def)
  have "criteria_forEach (criteria_blocks 0 (criteria q) @ ?rest) [] =
        criteria_forEach ?rest (map (\<lambda>(i, c). (i, complete c)) (enumerate 0 (criteria q)))"
    by (subst criteria_forEach_append) (simp only: blocks sum.case)
  then show ?thesis
    unfolding e by (simp only: criteria_forEach_other [OF other])
qed

lemma array_forEach_middle:
  assumes "\<forall>p \<in> set front. match_indexed pre (fst p) = None"
    "\<forall>p \<in> set back. match_indexed pre (fst p) = None"
  shows "array_forEach pre (front @ mid @ back) a = array_forEach pre mid a"
  by (simp add: array_forEach_append array_forEach_other [OF assms(1)]
      array_forEach_other [OF assms(2)])

lemma array_of_emission:
  assumes "text_array (select q)" "text_array (selectAs q)" "text_array (orderBy q)"
    "text_array (orderByDirection q)"
  shows "array_or_undefined (array_forEach ''select'' (emission_order q) []) = omit_empty (select q)"
    and "array_or_undefined (array_forEach ''selectAs'' (emission_order q) []) = omit_empty (selectAs q)"
    and "array_or_undefined (array_forEach ''orderBy'' (emission_order q) []) = omit_empty (orderBy q)"
    and "array_or_undefined (array_forEach ''orderByDirection'' (emission_order q) [])
         = omit_empty (orderByDirection q)"
proof -
  let ?c = "criteria_blocks 0 (criteria q)"
  let ?s = "array_block ''select'' (select q)" and ?sa = "array_block ''selectAs'' (selectAs q)"
  let ?o = "array_block ''orderBy'' (orderBy q)"
  let ?od = "array_block ''orderByDirection'' (orderByDirection q)"
  let ?n = "number_block ''page'' (page q) @ number_block ''pageSize'' (pageSize q)"
  have n: "\<forall>p \<in> set ?n. match_indexed pre (fst p) = None" for pre
    using no_match_number_block [of "''page''" "page q" pre]
          no_match_number_block [of "''pageSize''" "pageSize q" pre] by auto
  have 1: "emission_order q = ?c @ ?s @ (?sa @ ?o @ ?od @ ?n)"
    and 2: "emission_order q = (?c @ ?s) @ ?sa @ (?o @ ?od @ ?n)"
    and 3: "emission_order q = (?c @ ?s @ ?sa) @ ?o @ (?od @ ?n)"
    and 4: "emission_order q = (?c @ ?s @ ?sa @ ?o) @ ?od @ ?n"
    by (simp_all add: emission_order_def)
  have "array_forEach ''select'' (emission_order q) [] = array_forEach ''select'' ?s []"
    unfolding 1
    by (rule array_forEach_middle)
       (use n [of "''select''"] no_match_criteria_blocks [of "''select''" 0 "criteria q"]
          no_match_array_block [of "''select''" "''selectAs''" "selectAs q"]
          no_match_array_block [of "''select''" "''orderBy''" "orderBy q"]
          no_match_array_block [of "''select''" "''orderByDirection''" "orderByDirection q"]
        in auto)
  then show "array_or_undefined (array_forEach ''select'' (emission_order q) []) = omit_empty (select q)"
    by (simp add: array_block_loop [OF assms(1)])
  have "array_forEach ''selectAs'' (emission_order q) [] = array_forEach ''selectAs'' ?sa []"
    unfolding 2
    by (rule array_forEach_middle)
       (use n [of "''selectAs''"] no_match_criteria_blocks [of "''selectAs''" 0 "criteria q"]
          no_match_array_block [of "''selectAs''" "''select''" "select q"]
          no_match_array_block [of "''selectAs''" "''orderBy''" "orderBy q"]
          no_match_array_block [of "''selectAs''" "''orderByDirection''" "orderByDirection q"]
        in auto)
  then show "array_or_undefined (array_forEach ''selectAs'' (emission_order q) []) = omit_empty (selectAs q)"
    by (simp add: array_block_loop [OF assms(2)])
  have "array_forEach ''orderBy'' (emission_order q) [] = array_forEach ''orderBy'' ?o []"
    unfolding 3
    by (rule array_forEach_middle)
       (use n [of "''orderBy''"] no_match_criteria_blocks [of "''orderBy''" 0 "criteria q"]
          no_match_array_block [of "''orderBy''" "''select''" "select q"]
          no_match_array_block [of "''orderBy''" "''selectAs''" "selectAs q"]
          no_match_array_block [of "''orderBy''" "''orderByDirection''" "orderByDirection q"]
        in auto)
  then show "array_or_undefined (array_forEach ''orderBy'' (emission_order q) []) = omit_empty (orderBy q)"
    by (simp add: array_block_loop [OF assms(3)])
  have "array_forEach ''orderByDirection'' (emission_order q) [] = array_forEach ''orderByDirection'' ?od []"
    unfolding 4
    by (rule array_forEach_middle)
       (use n [of "''orderByDirection''"]
          no_match_criteria_blocks [of "''orderByDirection''" 0 "criteria q"]
          no_match_array_block [of "''orderByDirection''" "''select''" "select q"]
          no_match_array_block [of "''orderByDirection''" "''selectAs''" "selectAs q"]
          no_match_array_block [of "''orderByDirection''" "''orderBy''" "orderBy q"]
        in auto)
  then show "array_or_undefined (array_forEach ''orderByDirection'' (emission_order q) [])
         = omit_empty (orderByDirection q)"
    by (simp add: array_block_loop [OF assms(4)])
qed

lemma get_append_other: "name \<notin> fst ` set ps \<Longrightarrow> get (ps @ ps') name = get ps' name"
proof -
  assume "name \<notin> fst ` set ps"
  then have "map_of ps name = None" by (simp add: map_of_eq_None_iff)
  then show ?thesis by (simp add: get_def map_add_def)
qed

lemma numbers_of_emission:
  "number_param (emission_order q) ''page'' = page q"
  "number_param (emission_order q) ''pageSize'' = pageSize q"
proof -
  let ?front = "criteria_blocks 0 (criteria q) @ array_block ''select'' (select q)
     @ array_block ''selectAs'' (selectAs q) @ array_block ''orderBy'' (orderBy q)
     @ array_block ''orderByDirection'' (orderByDirection q)"
  have e: "emission_order q = ?front @ number_block ''page'' (page q) @ number_block ''pageSize'' (pageSize q)"
    by (simp add: emission_order_def)
  have front: "name \<notin> fst ` set ?front" if "digit_free name" for name
  proof
    assume "name \<in> fst ` set ?front"
    then obtain p where p: "p \<in> set ?front" "fst p = name" by auto
    consider "p \<in> set (criteria_blocks 0 (criteria q))"
      | pre field where "p \<in> set (array_block pre field)"
      using p(1) by auto
    then have "\<exists>pre i. fst p = indexed pre i"
    proof cases
      case 1
      then obtain i where "fst p \<in> criterion_names i" using criteria_blocks_names by blast
      then show ?thesis by (auto simp: criterion_names_def)
    next
      case 2
      then show ?thesis using array_block_names by blast
    qed
    then obtain pre i where "fst p = indexed pre i" by blast
    then show False using p(2) indexed_not_digit_free [OF that, of pre i] by simp
  qed
  have pg: "get (emission_order q) ''page'' = map_option number_toString (page q)"
    unfolding e by (subst get_append_other [OF front]) (auto simp: get_def number_block_def split: option.splits)
  have "''pageSize'' \<notin> fst ` set (number_block ''page'' (page q))"
    by (cases "page q") (simp_all add: number_block_def)
  then have "''pageSize'' \<notin> fst ` set (?front @ number_block ''page'' (page q))"
    using front [of "''pageSize''"] by auto
  then have ps: "get (emission_order q) ''pageSize'' = map_option number_toString (pageSize q)"
    using get_append_other [of "''pageSize''" "?front @ number_block ''page'' (page q)"
        "number_block ''pageSize'' (pageSize q)"]
    by (auto simp: e get_def number_block_def split: option.splits)
  show "number_param (emission_order q) ''page'' = page q"
    by (cases "page q") (simp_all add: number_param_eq pg parseInt_toString)
  show "number_param (emission_order q) ''pageSize'' = pageSize q"
    by (cases "pageSize q") (simp_all add: number_param_eq ps parseInt_toString)
qed

text \<open>The definitions that evaluate \<^const>\<open>toQueryString\<close> on a given query.\<close>

lemmas encode_eval =
  toQueryString_def params_toString_def query_params_eq emission_order_def criteria_blocks_def
  criterion_block_def array_block_def array_entries_def number_block_def indexed_def
  serialize_pair_def urlencoded_safe_def percent_encode_byte_def hex_digit_def
  number_toString_def

section \<open>The mutator\<close>

lemma operation_string_truthy: "operation_string op \<noteq> []"
  by (cases op) simp_all

text \<open>
  C10. A \<^verbatim>\<open>QueryBuilder\<close> constructed with no initial query owns the query with no
  criteria, page 0 and page size 20, and \<^verbatim>\<open>clear()\<close> resets the owned query to that same
  value, whatever it was. The page size 20 is a constant of the code: \<^verbatim>\<open>clear\<close> takes no
  argument, and the constructor takes a whole query or nothing.
\<close>

theorem default_query_is_fixed:
  "new_QueryBuilder None =
     \<lparr>criteria = [], select = None, selectAs = None, orderBy = None,
      orderByDirection = None, page = Some (Num 0), pageSize = Some (Num 20)\<rparr>
   \<and> (\<forall>q. clear q = new_QueryBuilder None)
   \<and> (\<forall>q. pageSize (clear q) = Some (Num 20))
   \<and> (\<forall>q. new_QueryBuilder (Some q) = q)"
  by (simp add: new_QueryBuilder_def clear_def)

text \<open>
  C4. On the criteria \<open>age EQUAL [10]\<close>, \<open>age GREATER_THAN [5]\<close>, the call
  \<^verbatim>\<open>upsertCriteria("age", EQUAL, ["20"])\<close> leaves \<open>age GREATER_THAN [5]\<close>,
  \<open>age EQUAL [20]\<close>. In general \<^verbatim>\<open>upsertCriteria(key, operation, values)\<close> removes
  exactly the criteria that match both the key and the operation, keeps every other
  criterion in its place, appends one criterion with the given values at the end, and
  changes nothing else of the query.
\<close>

theorem upsertCriteria_replaces_exact_pair:
  "criteria (upsertCriteria ''age'' EQUAL [''20'']
       (q\<lparr>criteria :=
            [\<lparr>key = ''age'', operation = operation_string EQUAL, values = [''10'']\<rparr>,
             \<lparr>key = ''age'', operation = operation_string GREATER_THAN, values = [''5'']\<rparr>]\<rparr>))
     = [\<lparr>key = ''age'', operation = operation_string GREATER_THAN, values = [''5'']\<rparr>,
        \<lparr>key = ''age'', operation = operation_string EQUAL, values = [''20'']\<rparr>]
   \<and> (\<forall>q' k op vs.
        upsertCriteria k op vs q' =
          q'\<lparr>criteria :=
               filter (\<lambda>c. \<not> (key c = k \<and> operation c = operation_string op)) (criteria q')
               @ [\<lparr>key = k, operation = operation_string op, values = vs\<rparr>]\<rparr>)"
proof -
  have general: "upsertCriteria k op vs q' =
          q'\<lparr>criteria :=
               filter (\<lambda>c. \<not> (key c = k \<and> operation c = operation_string op)) (criteria q')
               @ [\<lparr>key = k, operation = operation_string op, values = vs\<rparr>]\<rparr>"
    for q' k op vs
    by (simp add: upsertCriteria_def addCriteria_def removeCriteria_def operation_string_truthy)
  show ?thesis
    by (simp add: general)
qed

theorem upsertCriteria_replaces_exact_pair_witness:
  "upsertCriteria ''name'' CONTAIN [''bob'']
     \<lparr>criteria = [\<lparr>key = ''name'', operation = ''CONTAIN'', values = [''al'']\<rparr>,
                  \<lparr>key = ''name'', operation = ''EQUAL'', values = [''x'']\<rparr>,
                  \<lparr>key = ''age'', operation = ''CONTAIN'', values = [''1'']\<rparr>],
      select = None, selectAs = None, orderBy = None, orderByDirection = None,
      page = Some (Num 0), pageSize = Some (Num 20)\<rparr>
   = \<lparr>criteria = [\<lparr>key = ''name'', operation = ''EQUAL'', values = [''x'']\<rparr>,
                  \<lparr>key = ''age'', operation = ''CONTAIN'', values = [''1'']\<rparr>,
                  \<lparr>key = ''name'', operation = ''CONTAIN'', values = [''bob'']\<rparr>],
      select = None, selectAs = None, orderBy = None, orderByDirection = None,
      page = Some (Num 0), pageSize = Some (Num 20)\<rparr>"
  using upsertCriteria_replaces_exact_pair by simp

section \<open>Encoding\<close>

text \<open>
  C9. For every query, the string of \<^verbatim>\<open>toQueryString\<close> is the \<open>&\<close>-joined list of
  \<open>name=value\<close> pairs in this order: for each criterion in sequence \<open>key{i}\<close>, then
  \<open>operation{i}\<close>, then one \<open>values{i}\<close> pair per value; then every \<open>select{i}\<close>,
  every \<open>selectAs{i}\<close>, every \<open>orderBy{i}\<close>, every \<open>orderByDirection{i}\<close>; then
  \<open>page\<close> if defined, then \<open>pageSize\<close> if defined. An optional field that is absent
  or empty contributes nothing.
\<close>

theorem toQueryString_emission_order:
  "toQueryString q = join_amp (map serialize_pair (emission_order q))"
  by (simp add: toQueryString_def params_toString_def query_params_eq)

theorem toQueryString_emission_order_witness: "toQueryString
     \<lparr>criteria = [\<lparr>key = ''name'', operation = ''CONTAIN'', values = [''test'']\<rparr>],
      select = None, selectAs = None, orderBy = Some [Some ''id''],
      orderByDirection = Some [Some ''desc''], page = Some (Num 0), pageSize = Some (Num 20)\<rparr>
   = ''key0=name&operation0=CONTAIN&values0=test&orderBy0=id&orderByDirection0=desc&page=0&pageSize=20''"
  using toQueryString_emission_order [of "\<lparr>criteria = [\<lparr>key = ''name'', operation = ''CONTAIN'', values = [''test'']\<rparr>],
      select = None, selectAs = None, orderBy = Some [Some ''id''],
      orderByDirection = Some [Some ''desc''], page = Some (Num 0), pageSize = Some (Num 20)\<rparr>"]
  by (simp add: emission_order_def criteria_blocks_def criterion_block_def array_block_def
      array_entries_def number_block_def indexed_def number_toString_def decimal.simps [of 20]
      decimal.simps [of 2]
      serialize_pair_def urlencoded_safe_def code_def char_of_bits)

text \<open>
  C2, as the code has it. \<^verbatim>\<open>toQueryString\<close> skips no criterion. For every query and
  every position \<open>i\<close> in its criteria, the parameters named \<open>key{i}\<close>,
  \<open>operation{i}\<close> or \<open>values{i}\<close> among those that the output string serializes
  (\<^const>\<open>query_params\<close>) are exactly the block of the criterion
  at position \<open>i\<close>: its key, its operation and one \<open>values{i}\<close> per value. A criterion
  with no values is emitted as \<open>key{i}\<close> and \<open>operation{i}\<close> alone and keeps its index;
  the criteria after it are not renumbered.
\<close>

theorem empty_values_criterion_is_emitted:
  "i < length (criteria q) \<Longrightarrow>
   filter (\<lambda>p. fst p \<in> criterion_names i) (query_params q) = criterion_block i (criteria q ! i)"
  by (simp add: query_params_eq emission_order_def filter_criteria_blocks filter_array_block
      filter_number_block)

text \<open>
  The claim as stated fails: a criterion with no values appears in the output and holds
  index 0, and the next criterion has index 1.
\<close>

theorem empty_values_criterion_counterexample:
  "toQueryString
     \<lparr>criteria = [\<lparr>key = ''a'', operation = ''EQUAL'', values = []\<rparr>,
                  \<lparr>key = ''b'', operation = ''CONTAIN'', values = [''x'']\<rparr>],
      select = None, selectAs = None, orderBy = None, orderByDirection = None,
      page = None, pageSize = None\<rparr>
   = ''key0=a&operation0=EQUAL&key1=b&operation1=CONTAIN&values1=x''"
  by (simp add: toQueryString_def params_toString_def query_params_eq emission_order_def
      criteria_blocks_def criterion_block_def array_block_def number_block_def indexed_def
      serialize_pair_def urlencoded_safe_def code_def)

theorem empty_values_criterion_is_emitted_witness:
  "filter (\<lambda>p. fst p \<in> criterion_names 0)
     (query_params
        \<lparr>criteria = [\<lparr>key = ''a'', operation = ''EQUAL'', values = []\<rparr>,
                     \<lparr>key = ''b'', operation = ''CONTAIN'', values = [''x'']\<rparr>],
         select = None, selectAs = None, orderBy = None, orderByDirection = None,
         page = None, pageSize = None\<rparr>)
   = [(''key0'', ''a''), (''operation0'', ''EQUAL'')]"
  using empty_values_criterion_is_emitted [of 0
        "\<lparr>criteria = [\<lparr>key = ''a'', operation = ''EQUAL'', values = []\<rparr>,
                     \<lparr>key = ''b'', operation = ''CONTAIN'', values = [''x'']\<rparr>],
         select = None, selectAs = None, orderBy = None, orderByDirection = None,
         page = None, pageSize = None\<rparr>"]
  by (simp add: criterion_block_def indexed_def)

section \<open>Decoding\<close>

text \<open>
  C5, as the code has it. The criteria of the decoded query stand in the order in which
  their indices first appear among the \<open>key{i}\<close>, \<open>operation{i}\<close> and \<open>values{i}\<close>
  parameters of the input (the insertion order of the \<^verbatim>\<open>Map\<close> that collects them),
  not in ascending order of the index: whenever \<^verbatim>\<open>fromQueryString\<close> returns, its
  criteria are the complete entries of the indices in encounter order.
\<close>

theorem criteria_follow_encounter_order:
  "fromQueryString s = Inr q \<Longrightarrow>
   criteria q =
     List.map_filter (\<lambda>i. materialized (collected (new_URLSearchParams s) i))
       (encounter_order (new_URLSearchParams s))"
  by (rule fromQueryString_criteria)

text \<open>
  The claim as stated fails: with the fragments of index 10 before those of index 2, the
  criterion of index 10 comes first.
\<close>

theorem criteria_ascending_index_counterexample:
  "fromQueryString ''key10=a&operation10=EQUAL&values10=1&key2=b&operation2=EQUAL&values2=2'' =
   Inr \<lparr>criteria = [\<lparr>key = ''a'', operation = ''EQUAL'', values = [''1'']\<rparr>,
                     \<lparr>key = ''b'', operation = ''EQUAL'', values = [''2'']\<rparr>],
        select = None, selectAs = None, orderBy = None, orderByDirection = None,
        page = None, pageSize = None\<rparr>
   \<and> encounter_order
        (new_URLSearchParams ''key10=a&operation10=EQUAL&values10=1&key2=b&operation2=EQUAL&values2=2'')
      = [10, 2]"
  using decode_index_10_first
  by (simp add: encounter_order_def List.map_filter_def criteria_index_def decode_eval)

theorem criteria_follow_encounter_order_witness:
  "List.map_filter
     (\<lambda>i. materialized (collected
        (new_URLSearchParams ''key10=a&operation10=EQUAL&values10=1&key2=b&operation2=EQUAL&values2=2'') i))
     (encounter_order
        (new_URLSearchParams ''key10=a&operation10=EQUAL&values10=1&key2=b&operation2=EQUAL&values2=2''))
   = [\<lparr>key = ''a'', operation = ''EQUAL'', values = [''1'']\<rparr>,
      \<lparr>key = ''b'', operation = ''EQUAL'', values = [''2'']\<rparr>]"
  using criteria_follow_encounter_order [OF decode_index_10_first] by simp

text \<open>
  What holds of the criteria whenever \<^verbatim>\<open>fromQueryString\<close> returns: a criterion is in
  the decoded query exactly when some index has a \<open>key{i}\<close> parameter whose last value is
  not empty, an \<open>operation{i}\<close> parameter whose last value is not empty, and a
  \<open>values{i}\<close> parameter; the criterion holds those values. And when it does not return,
  \<^verbatim>\<open>decodeURIComponent\<close> has rejected the value of a \<open>values{i}\<close> parameter.
\<close>

lemma complete_entries_become_criteria:
  "(fromQueryString s = Inr q \<longrightarrow>
      (c \<in> set (criteria q) \<longleftrightarrow>
         (\<exists>i. fragments ''key'' (new_URLSearchParams s) i \<noteq> []
              \<and> key c = last (fragments ''key'' (new_URLSearchParams s) i) \<and> key c \<noteq> []
              \<and> fragments ''operation'' (new_URLSearchParams s) i \<noteq> []
              \<and> operation c = last (fragments ''operation'' (new_URLSearchParams s) i)
              \<and> operation c \<noteq> []
              \<and> fragments ''values'' (new_URLSearchParams s) i \<noteq> []
              \<and> values c = concat (map pieces (fragments ''values'' (new_URLSearchParams s) i)))))
   \<and> (fromQueryString s = Inl e \<longrightarrow>
        (\<exists>p \<in> set (new_URLSearchParams s).
           match_indexed ''values'' (fst p) \<noteq> None \<and> decodeURIComponent (snd p) = Inl e))"
proof (intro conjI impI)
  assume r: "fromQueryString s = Inr q"
  let ?ps = "new_URLSearchParams s"
  have "c \<in> set (criteria q) \<longleftrightarrow>
        (\<exists>i \<in> set (encounter_order ?ps). materialized (collected ?ps i) = Some c)"
    unfolding fromQueryString_criteria [OF r] by (auto simp: set_map_filter)
  also have "\<dots> \<longleftrightarrow> (\<exists>i. materialized (collected ?ps i) = Some c)"
    using key_fragment_in_order [of ?ps] by (auto simp: materialized_collected)
  finally show "c \<in> set (criteria q) \<longleftrightarrow>
         (\<exists>i. fragments ''key'' ?ps i \<noteq> []
              \<and> key c = last (fragments ''key'' ?ps i) \<and> key c \<noteq> []
              \<and> fragments ''operation'' ?ps i \<noteq> []
              \<and> operation c = last (fragments ''operation'' ?ps i)
              \<and> operation c \<noteq> []
              \<and> fragments ''values'' ?ps i \<noteq> []
              \<and> values c = concat (map pieces (fragments ''values'' ?ps i)))"
    by (simp add: materialized_collected)
next
  assume "fromQueryString s = Inl e"
  then show "\<exists>p \<in> set (new_URLSearchParams s).
           match_indexed ''values'' (fst p) \<noteq> None \<and> decodeURIComponent (snd p) = Inl e"
    by (rule fromQueryString_throws)
qed

text \<open>
  C7. The guard at the end of \<^verbatim>\<open>fromQueryString\<close> drops an index that lacks a key, an
  operation or values, as the claim says: \<open>operation2=EQUAL\<close> alone gives no criterion, and
  so do the fragments of two different indices. But the partial fragment is not always
  dropped without error. The value of every \<open>values{i}\<close> parameter goes through
  \<^verbatim>\<open>decodeURIComponent\<close> before the guard is reached, so that the lone fragment
  \<open>values2=%25\<close> throws \<^verbatim>\<open>URIError\<close>, and so does a string that contains
  \<open>operation2=EQUAL\<close>, no \<open>key2\<close> and no \<open>values2\<close>. This is the defect of C3.
\<close>

theorem partial_fragment_throws:
  "fromQueryString ''values2=%25'' = Inl URIError
   \<and> fromQueryString ''operation2=EQUAL&values0=%25'' = Inl URIError
   \<and> fromQueryString ''operation2=EQUAL'' =
       Inr \<lparr>criteria = [], select = None, selectAs = None, orderBy = None,
            orderByDirection = None, page = None, pageSize = None\<rparr>
   \<and> fromQueryString ''key1=a&operation1=EQUAL&values10=x'' =
       Inr \<lparr>criteria = [], select = None, selectAs = None, orderBy = None,
            orderByDirection = None, page = None, pageSize = None\<rparr>
   \<and> fromQueryString ''key01=a&operation1=EQUAL&values1=x'' =
       Inr \<lparr>criteria = [\<lparr>key = ''a'', operation = ''EQUAL'', values = [''x'']\<rparr>],
            select = None, selectAs = None, orderBy = None,
            orderByDirection = None, page = None, pageSize = None\<rparr>"
  by (simp add: decode_eval)

text \<open>
  C8, as the code has it. When \<^verbatim>\<open>fromQueryString\<close> returns, \<open>page\<close> is
  \<^verbatim>\<open>parseInt\<close> of the first \<open>page\<close> parameter, and undefined only when there is none:
  a value that does not parse gives the number \<^verbatim>\<open>NaN\<close>, a defined value. The same
  holds for \<open>pageSize\<close>.
\<close>

theorem unparsable_page_is_NaN:
  "fromQueryString s = Inr q \<Longrightarrow>
   (\<forall>v. get (new_URLSearchParams s) ''page'' = Some v \<and> parseInt v = NaN \<longrightarrow> page q = Some NaN)
   \<and> (\<forall>v. get (new_URLSearchParams s) ''pageSize'' = Some v \<and> parseInt v = NaN
          \<longrightarrow> pageSize q = Some NaN)
   \<and> page q = map_option parseInt (get (new_URLSearchParams s) ''page'')
   \<and> pageSize q = map_option parseInt (get (new_URLSearchParams s) ''pageSize'')"
proof -
  assume r: "fromQueryString s = Inr q"
  show ?thesis using fromQueryString_numbers [OF r] by (auto simp: number_param_eq)
qed

text \<open>
  The claim as stated fails: \<open>page=abc\<close> gives the page \<^verbatim>\<open>NaN\<close>, where an absent
  parameter gives none.
\<close>

theorem unparsable_page_counterexample:
  "fromQueryString ''page=abc&pageSize=ten'' =
   Inr \<lparr>criteria = [], select = None, selectAs = None, orderBy = None, orderByDirection = None,
        page = Some NaN, pageSize = Some NaN\<rparr>"
  by (rule decode_bad_numbers)

theorem unparsable_page_is_NaN_witness:
  "get (new_URLSearchParams ''page=abc&pageSize=ten'') ''page'' = Some ''abc''
   \<and> parseInt ''abc'' = NaN
   \<and> page \<lparr>criteria = [], select = None, selectAs = None, orderBy = None,
            orderByDirection = None, page = Some NaN, pageSize = Some NaN\<rparr> = Some NaN"
  using unparsable_page_is_NaN [OF decode_bad_numbers]
  by (simp add: decode_eval)

text \<open>
  C3. \<^verbatim>\<open>fromQueryString\<close> is not total: it passes the value of a \<open>values{i}\<close>
  parameter, which \<^verbatim>\<open>URLSearchParams\<close> has already percent-decoded, to
  \<^verbatim>\<open>decodeURIComponent\<close>, which throws \<^verbatim>\<open>URIError\<close> on a percent sign that starts
  no escape. The string that \<^verbatim>\<open>toQueryString\<close> itself emits for the value \<open>100%\<close> is
  such an input.
\<close>

theorem decode_throws_on_own_encoding:
  "toQueryString
     \<lparr>criteria = [\<lparr>key = ''discount'', operation = ''EQUAL'', values = [''100%'']\<rparr>],
      select = None, selectAs = None, orderBy = None, orderByDirection = None,
      page = None, pageSize = None\<rparr>
   = ''key0=discount&operation0=EQUAL&values0=100%25''
   \<and> fromQueryString ''key0=discount&operation0=EQUAL&values0=100%25'' = Inl URIError
   \<and> fromQueryString ''values0=%25'' = Inl URIError"
  by (simp add: toQueryString_def params_toString_def query_params_eq emission_order_def
      criteria_blocks_def criterion_block_def array_block_def number_block_def indexed_def
      serialize_pair_def urlencoded_safe_def percent_encode_byte_def hex_digit_def decode_eval)

text \<open>
  C6. In the query string \<open>key0=tags&operation0=EQUAL&values0=a&&b&&c\<close> the separator
  \<open>&&\<close> never reaches the code that splits values: \<^verbatim>\<open>URLSearchParams\<close> splits the
  string at every \<open>&\<close>, so that \<open>values0\<close> is \<open>a\<close>, and \<open>b\<close> and \<open>c\<close> are
  parameters of their own. The criterion has the one value \<open>a\<close>. Only a percent-encoded
  separator (\<open>a%26%26b%26%26c\<close>) is split into three values.
\<close>

theorem decode_raw_double_ampersand:
  "fromQueryString ''key0=tags&operation0=EQUAL&values0=a&&b&&c'' =
   Inr \<lparr>criteria = [\<lparr>key = ''tags'', operation = ''EQUAL'', values = [''a'']\<rparr>],
        select = None, selectAs = None, orderBy = None, orderByDirection = None,
        page = None, pageSize = None\<rparr>
   \<and> fromQueryString ''key0=tags&operation0=EQUAL&values0=a%26%26b%26%26c'' =
   Inr \<lparr>criteria = [\<lparr>key = ''tags'', operation = ''EQUAL'', values = [''a'', ''b'', ''c'']\<rparr>],
        select = None, selectAs = None, orderBy = None, orderByDirection = None,
        page = None, pageSize = None\<rparr>"
  by (simp add: decode_eval)

section \<open>Round trip\<close>

text \<open>
  C1, as the code has it. Let the strings of a query be texts, its optional arrays be
  without holes, its page and page size be absent, \<^verbatim>\<open>NaN\<close> or safe integers (of magnitude
  below \<open>2^53\<close>), and every criterion have a key, an operation and at least one value, no
  value containing a percent sign or the two characters \<open>&&\<close>. Then decoding the
  encoding of the query returns the query itself, but for its empty optional arrays,
  which come back absent. Values may contain \<open>&\<close>, \<open>=\<close>, spaces and any other
  character. A page that is no safe integer is outside the statement: JavaScript prints
  \<open>10^21\<close> as \<open>1e+21\<close> and \<open>1.5\<close> as such, and \<^verbatim>\<open>parseInt\<close> reads back 1.
\<close>

theorem decode_of_encode:
  assumes "list_all encodable (criteria q)" "list_all text_criterion (criteria q)"
    "text_array (select q)" "text_array (selectAs q)" "text_array (orderBy q)"
    "text_array (orderByDirection q)"
    "safe_number (page q)" "safe_number (pageSize q)"
  shows "fromQueryString (toQueryString q) = Inr (canonical q)"
proof -
  have parse: "new_URLSearchParams (toQueryString q) = emission_order q"
    unfolding toQueryString_def query_params_eq
    by (rule parse_serialize) (rule emission_well_formed [OF assms(2-6)])
  show ?thesis
    unfolding fromQueryString_def parse params_forEach_eq
    by (simp add: initial_state_def criteria_of_emission [OF assms(1)]
        criteria_push_complete [OF assms(1)] array_of_emission [OF assms(3-6)]
        numbers_of_emission canonical_def)
qed

text \<open>
  The claim as stated fails. A value that contains \<open>&&\<close> comes back as two values,
  since the decoder splits every value at \<open>&&\<close>; a criterion with the empty key is
  dropped by the decoder's guard; and a value with a percent sign makes the decoder throw
  (the defect of C3).
\<close>

theorem decode_of_encode_counterexample:
  "fromQueryString (toQueryString
      \<lparr>criteria = [\<lparr>key = ''tags'', operation = ''EQUAL'', values = [''a&&b'']\<rparr>],
       select = None, selectAs = None, orderBy = None, orderByDirection = None,
       page = None, pageSize = None\<rparr>)
   = Inr \<lparr>criteria = [\<lparr>key = ''tags'', operation = ''EQUAL'', values = [''a'', ''b'']\<rparr>],
          select = None, selectAs = None, orderBy = None, orderByDirection = None,
          page = None, pageSize = None\<rparr>
   \<and> fromQueryString (toQueryString
      \<lparr>criteria = [\<lparr>key = [], operation = ''EQUAL'', values = [''x'']\<rparr>],
       select = None, selectAs = None, orderBy = None, orderByDirection = None,
       page = None, pageSize = None\<rparr>)
   = Inr \<lparr>criteria = [],
          select = None, selectAs = None, orderBy = None, orderByDirection = None,
          page = None, pageSize = None\<rparr>
   \<and> fromQueryString (toQueryString
      \<lparr>criteria = [\<lparr>key = ''discount'', operation = ''EQUAL'', values = [''100%'']\<rparr>],
       select = None, selectAs = None, orderBy = None, orderByDirection = None,
       page = None, pageSize = None\<rparr>)
   = Inl URIError"
  by (simp add: encode_eval decode_eval)

theorem decode_of_encode_witness:
  "fromQueryString (toQueryString
      \<lparr>criteria = [\<lparr>key = ''name'', operation = ''CONTAIN'', values = [''R&D 100'', ''x=y'']\<rparr>,
                   \<lparr>key = ''age'', operation = ''GREATER_THAN'', values = [''25'']\<rparr>],
       select = Some [Some ''id''], selectAs = Some [], orderBy = Some [Some ''id''],
       orderByDirection = Some [Some ''desc''], page = Some (Num 0), pageSize = Some (Num 20)\<rparr>)
   = Inr \<lparr>criteria = [\<lparr>key = ''name'', operation = ''CONTAIN'', values = [''R&D 100'', ''x=y'']\<rparr>,
                   \<lparr>key = ''age'', operation = ''GREATER_THAN'', values = [''25'']\<rparr>],
       select = Some [Some ''id''], selectAs = None, orderBy = Some [Some ''id''],
       orderByDirection = Some [Some ''desc''], page = Some (Num 0), pageSize = Some (Num 20)\<rparr>"
  using decode_of_encode [of
      "\<lparr>criteria = [\<lparr>key = ''name'', operation = ''CONTAIN'', values = [''R&D 100'', ''x=y'']\<rparr>,
                   \<lparr>key = ''age'', operation = ''GREATER_THAN'', values = [''25'']\<rparr>],
       select = Some [Some ''id''], selectAs = Some [], orderBy = Some [Some ''id''],
       orderByDirection = Some [Some ''desc''], page = Some (Num 0), pageSize = Some (Num 20)\<rparr>"]
  by (simp add: encodable_def plain_value_def text_criterion_def text_array_def canonical_def
      omit_empty_def well_formed_def utf8_decode_def code_def safe_number_def)

text \<open>
  Why the strings must be texts: the URL parser replaces what is not well-formed by
  U+FFFD. In JavaScript such a string has a lone surrogate, which the serializer already
  writes as U+FFFD; in the byte model it is an ill-formed byte sequence.
\<close>

lemma ill_formed_text_is_replaced:
  "fromQueryString (toQueryString
      \<lparr>criteria = [\<lparr>key = ''k'', operation = ''EQUAL'', values = [[CHR 0xFF]]\<rparr>],
       select = None, selectAs = None, orderBy = None, orderByDirection = None,
       page = None, pageSize = None\<rparr>)
   = Inr \<lparr>criteria = [\<lparr>key = ''k'', operation = ''EQUAL'', values = [[CHR 0xEF, CHR 0xBF, CHR 0xBD]]\<rparr>],
          select = None, selectAs = None, orderBy = None, orderByDirection = None,
          page = None, pageSize = None\<rparr>"
  by (simp add: encode_eval decode_eval replacement_def)

end
